theory Spec2Isabelle
  imports Main "HOL-Library.Word" "HOL-Library.Sublist"
begin

unbundle bit_operations_syntax

section \<open>The DAWG compiler and decompiler of zyzzyva-dawg.cpp\<close>

text \<open>
  The embedding follows \<^verbatim>\<open>src/zyzzyva-dawg.cpp\<close> function by function. Bytes are
  \<open>8 word\<close>, the packed edge record is a \<open>32 word\<close>, \<open>size_t\<close> values are natural
  numbers (no vector of this program comes near \<open>2 ^ 64\<close> entries). Exceptions are values
  of the type \<open>error\<close>; a read the C++ standard leaves undefined (outside a buffer, through
  an iterator that no longer points into its string, of an uninitialised variable) is the
  outcome \<open>Undefined\<close>, so that it can never pass for a result. The host is little-endian,
  as the file format is.
\<close>

type_synonym byte = "8 word"
type_synonym u32 = "32 word"

datatype error =
    OutOfOrder      \<comment> \<open>\<open>logic_error("Out of order strings")\<close>\<close>
  | PrefixOverflow  \<comment> \<open>\<open>logic_error("common prefix length longer than previous word!")\<close>\<close>
  | DanglingEdges   \<comment> \<open>\<open>logic_error("End of input, but edges still pending")\<close>\<close>
  | HashTableFull   \<comment> \<open>\<open>logic_error("Hash table full")\<close>\<close>
  | CorruptFile     \<comment> \<open>\<open>runtime_error("Input DAWG file appears to be corrupt")\<close>\<close>
  | CorruptGraph    \<comment> \<open>\<open>out_of_range\<close> from \<open>dawg.at\<close>, caught inside \<open>dump\<close>\<close>
  | Undefined       \<comment> \<open>undefined behaviour of the C++ program\<close>

text \<open>
  What the C++ implementation decides and the source does not: whether plain \<open>char\<close> is
  signed, and how many characters a \<open>std::string\<close> keeps inside the object itself (15 in
  libstdc++ and MSVC, 22 in libc++).
\<close>

record platform =
  char_signed :: bool
  sso_capacity :: nat

definition MAX_CHARS :: nat where
  "MAX_CHARS = 256"

definition HASH_TABLE_SIZE :: nat where
  "HASH_TABLE_SIZE = 240007"

subsection \<open>struct Node\<close>

type_synonym node = u32

definition letter_mask :: u32 where "letter_mask = 0xff000000"
definition end_of_word :: u32 where "end_of_word = 0x00800000"
definition end_of_node :: u32 where "end_of_node = 0x00400000"
definition reserve_bit :: u32 where "reserve_bit = 0x00200000"
definition offset_mask :: u32 where "offset_mask = 0x001fffff"
definition letter_shift :: nat where "letter_shift = 24"

definition mk_Node :: "byte \<Rightarrow> bool \<Rightarrow> node" where
  "mk_Node letter ends_word =
     push_bit letter_shift (ucast letter) OR (if ends_word then end_of_word else 0)"

definition isEndOfWord :: "node \<Rightarrow> bool" where
  "isEndOfWord v = (v AND end_of_word \<noteq> 0)"

definition isEndOfNode :: "node \<Rightarrow> bool" where
  "isEndOfNode v = (v AND end_of_node \<noteq> 0)"

definition getOffset :: "node \<Rightarrow> u32" where
  "getOffset v = v AND offset_mask"

definition getChar :: "node \<Rightarrow> byte" where
  "getChar v = ucast (drop_bit letter_shift (v AND letter_mask))"

definition setEndOfNode :: "node \<Rightarrow> node" where
  "setEndOfNode v = v OR end_of_node"

definition setChildOffset :: "node \<Rightarrow> u32 \<Rightarrow> node" where
  "setChildOffset v n = v OR (n AND offset_mask)"

definition hash_fn :: "u32 \<Rightarrow> node \<Rightarrow> u32" where
  "hash_fn r n = n XOR (push_bit 1 r OR drop_bit 31 r)"

text \<open>\<open>output\<close> and \<open>Node::write\<close>: the four bytes of a 32-bit value, lowest first.\<close>

definition output_u32 :: "u32 \<Rightarrow> byte list" where
  "output_u32 v = [ucast v, ucast (drop_bit 8 v), ucast (drop_bit 16 v), ucast (drop_bit 24 v)]"

text \<open>The reverse, \<open>is.read(reinterpret_cast<char *>(&x), 4)\<close> on four bytes.\<close>

definition read_u32 :: "byte list \<Rightarrow> u32" where
  "read_u32 bs = ucast (bs ! 0) OR push_bit 8 (ucast (bs ! 1))
                 OR push_bit 16 (ucast (bs ! 2)) OR push_bit 24 (ucast (bs ! 3))"

subsection \<open>The input stream\<close>

text \<open>
  A \<open>std::istream\<close> over a byte sequence: the bytes not yet read and the two state bits
  the program can observe. \<open>op_extract\<close> is \<open>operator>>(istream&, string&)\<close>: the sentry
  fails on a stream that is not good, or when only white space is left; a failed sentry
  leaves the string as it was; otherwise the string is erased and receives the characters
  up to the next white space, and meeting the end of the stream there sets \<open>eofbit\<close> alone.
\<close>

record istream =
  rest :: "byte list"
  eofbit :: bool
  failbit :: bool

definition isspace :: "byte \<Rightarrow> bool" where
  "isspace c = (c = 0x20 \<or> (0x09 \<le> c \<and> c \<le> 0x0d))"

definition op_extract :: "istream \<Rightarrow> byte list \<Rightarrow> istream \<times> byte list" where
  "op_extract inp s =
     (if eofbit inp \<or> failbit inp then (inp\<lparr>failbit := True\<rparr>, s)
      else let r = dropWhile isspace (rest inp) in
        if r = [] then (inp\<lparr>rest := [], eofbit := True, failbit := True\<rparr>, s)
        else let r' = dropWhile (\<lambda>c. \<not> isspace c) r in
          (inp\<lparr>rest := r', eofbit := (r' = [])\<rparr>, takeWhile (\<lambda>c. \<not> isspace c) r))"

subsection \<open>struct WordBuffer\<close>

record WordBuffer =
  count :: nat
  current :: "byte list"
  input :: istream

text \<open>The loop \<open>while ((input >> s) && s.size() < 2) ++count;\<close>.\<close>

function skip_short :: "istream \<Rightarrow> nat \<Rightarrow> byte list \<Rightarrow> istream \<times> nat \<times> byte list" where
  "skip_short inp cnt s =
     (case op_extract inp s of (inp', s') \<Rightarrow>
        if \<not> failbit inp' \<and> length s' < 2 then skip_short inp' (cnt + 1) s'
        else (inp', cnt, s'))"
  by pat_completeness auto
termination
proof -
  have drop_le: "length (dropWhile P xs) \<le> length xs" for P and xs :: "byte list"
    by (induction xs) auto
  have drop_lt: "length (dropWhile (\<lambda>c. \<not> P c) (dropWhile P xs)) < length xs"
    if ne: "dropWhile P xs \<noteq> []" for P and xs :: "byte list"
  proof -
    obtain y ys where ys: "dropWhile P xs = y # ys"
      using ne by (cases "dropWhile P xs") auto
    then have "\<not> P y"
      using hd_dropWhile [of P xs] by simp
    then have "length (dropWhile (\<lambda>c. \<not> P c) (y # ys)) \<le> length ys"
      using drop_le [of "\<lambda>c. \<not> P c" ys] by simp
    moreover have "length (y # ys) \<le> length xs"
      using drop_le [of P xs] ys by simp
    ultimately show ?thesis using ys by simp
  qed
  show ?thesis
    by (relation "measure (\<lambda>(inp, cnt, s). length (rest inp))")
       (auto simp: op_extract_def Let_def drop_lt split: if_splits)
qed

declare skip_short.simps [simp del]

text \<open>
  \<open>std::mismatch(s.cbegin(), s.cend(), current.data())\<close>: the second range is the buffer
  of \<open>current\<close>, its characters and the terminating zero. The result is the position of
  the first difference; a comparison that would read behind the terminator is undefined.
\<close>

fun mismatch :: "byte list \<Rightarrow> byte list \<Rightarrow> nat option" where
  "mismatch [] buf = Some 0"
| "mismatch (c # cs) [] = None"
| "mismatch (c # cs) (b # bs) =
     (if c = b then map_option Suc (mismatch cs bs) else Some 0)"

text \<open>\<open>*search.first < *search.second\<close> on two values of type \<open>char\<close>.\<close>

definition char_less :: "platform \<Rightarrow> byte \<Rightarrow> byte \<Rightarrow> bool" where
  "char_less pf a b = (if char_signed pf then sint a < sint b else a < b)"

text \<open>
  \<open>WordBuffer::next\<close>. The position is taken by \<open>std::distance(s.cbegin(), search.first)\<close>
  after \<open>current = std::move(s)\<close>. A string short enough to live inside its object is
  copied by the move and keeps its buffer, so the distance is the mismatch position. A
  longer one hands its heap buffer to \<open>current\<close>: \<open>search.first\<close> then points into a
  buffer \<open>s\<close> no longer has, and the distance of the two pointers is not defined.
\<close>

definition WordBuffer_next ::
  "platform \<Rightarrow> WordBuffer \<Rightarrow> error + ((nat \<times> byte list) \<times> WordBuffer)" where
  "WordBuffer_next pf wb =
     (case skip_short (input wb) (count wb) [] of (inp', cnt', s) \<Rightarrow>
        (case mismatch s (current wb @ [0]) of
           None \<Rightarrow> Inl Undefined
         | Some p \<Rightarrow>
             if s \<noteq> [] \<and> (p = length s \<or> char_less pf (s ! p) ((current wb @ [0]) ! p))
             then Inl OutOfOrder
             else if sso_capacity pf < length s then Inl Undefined
             else Inr ((p, s), \<lparr>count = cnt', current = s, input = inp'\<rparr>)))"

subsection \<open>struct EdgeList\<close>

type_synonym EdgeList = "node list"

definition hash :: "EdgeList \<Rightarrow> nat" where
  "hash edges = unat (foldl hash_fn 0 edges) mod HASH_TABLE_SIZE"

text \<open>
  \<open>EdgeList::equal\<close>, that is \<open>std::equal(edges.cbegin(), edges.cend(), start)\<close> with
  \<open>start\<close> the arena position \<open>j\<close>: it stops at the first difference; reading the arena
  at or behind its end is undefined.
\<close>

fun equal :: "EdgeList \<Rightarrow> node list \<Rightarrow> nat \<Rightarrow> bool option" where
  "equal [] arena j = Some True"
| "equal (e # es) arena j =
     (if j < length arena
      then (if e = arena ! j then equal es arena (Suc j) else Some False)
      else None)"

subsection \<open>struct Dawg\<close>

record Dawg =
  dawg :: "node list"
  hash_table :: "nat \<Rightarrow> nat"

definition Dawg_init :: Dawg where
  "Dawg_init = \<lparr>dawg = replicate MAX_CHARS 0, hash_table = (\<lambda>_. 0)\<rparr>"

definition save :: "Dawg \<Rightarrow> byte list" where
  "save d = output_u32 (of_nat (length (dawg d))) @ concat (map output_u32 (dawg d))"

text \<open>
  \<open>Dawg::load\<close> on the bytes of the file. \<open>edges * 4 + 4\<close> is computed in 32 bits and then
  compared with the 64-bit file size. \<open>edges\<close> is not initialised when the file has fewer
  than four bytes. After \<open>resize\<close> the arena has \<open>edges\<close> zero nodes, and \<open>read\<close> stores
  the nodes the file holds over the first of them.
\<close>

fun read_nodes :: "byte list \<Rightarrow> node list" where
  "read_nodes (a # b # c # d # bs) = read_u32 [a, b, c, d] # read_nodes bs"
| "read_nodes bs = []"

definition load :: "byte list \<Rightarrow> error + Dawg" where
  "load file =
     (if length file < 4 then Inl Undefined
      else let edges = read_u32 (take 4 file) in
        if unat (edges * 4 + 4) \<noteq> length file then Inl CorruptFile
        else let nodes = take (unat edges) (read_nodes (drop 4 file)) in
          Inr \<lparr>dawg = nodes @ replicate (unat edges - length nodes) 0,
               hash_table = (\<lambda>_. 0)\<rparr>)"

text \<open>
  \<open>Dawg::dump\<close>. The stack of node pointers is a list of arena indices, its back first.
  \<open>advance\<close> is the inner loop \<open>while (!stack.empty() && (stack.back()++)->isEndOfNode())
  stack.pop_back()\<close>. The traversal need not end on an arena with a cycle, so the outer
  loop is a partial function; its result is the text written to \<open>os\<close> and the errors
  reported on \<open>std::cerr\<close>. A round of the loop reads the node at the back of the stack,
  and the nodes of all pointers when it writes a word; the pointers below the back were
  read when they were pushed and have not moved since, so a pointer outside the arena can
  only be the back, and reading there is undefined.
\<close>

fun advance :: "node list \<Rightarrow> nat list \<Rightarrow> nat list option" where
  "advance arena [] = Some []"
| "advance arena (tp # below) =
     (if tp < length arena
      then (if isEndOfNode (arena ! tp) then advance arena below else Some (Suc tp # below))
      else None)"

partial_function (option) dump_loop ::
  "node list \<Rightarrow> nat list \<Rightarrow> byte list \<Rightarrow> (error + byte list \<times> error list) option" where
  "dump_loop arena stack os =
     (case stack of
        [] \<Rightarrow> Some (Inr (os, []))
      | tp # below \<Rightarrow>
          if \<not> (\<forall>i \<in> set stack. i < length arena) then Some (Inl Undefined)
          else
            let os' = (if isEndOfWord (arena ! tp)
                       then os @ map (\<lambda>i. getChar (arena ! i)) (rev stack) @ [0x0a]
                       else os)
            in if getOffset (arena ! tp) \<noteq> 0
               then (if unat (getOffset (arena ! tp)) - 1 < length arena
                     then dump_loop arena ((unat (getOffset (arena ! tp)) - 1) # stack) os'
                     else Some (Inr (os', [CorruptGraph])))
               else (case advance arena stack of
                       None \<Rightarrow> Some (Inl Undefined)
                     | Some stack' \<Rightarrow> dump_loop arena stack' os'))"

declare dump_loop.simps [code]

definition dump :: "Dawg \<Rightarrow> (error + byte list \<times> error list) option" where
  "dump d = dump_loop (dawg d) [0] []"

text \<open>\<open>hash_modulo_increment\<close> and the probing loop of \<open>Dawg::insertEdges\<close>.\<close>

definition hash_modulo_increment :: "nat \<Rightarrow> nat \<Rightarrow> nat" where
  "hash_modulo_increment base inc =
     (if base + inc \<ge> HASH_TABLE_SIZE then base + inc - HASH_TABLE_SIZE else base + inc)"

partial_function (option) probe ::
  "Dawg \<Rightarrow> EdgeList \<Rightarrow> nat \<Rightarrow> nat \<Rightarrow> nat \<Rightarrow> (error + nat \<times> Dawg) option" where
  "probe d edges initial_hash h inc =
     (if hash_table d h = 0
      then Some (Inr (length (dawg d) + 1,
                      d\<lparr>dawg := dawg d @ edges,
                        hash_table := (hash_table d)(h := length (dawg d))\<rparr>))
      else (case equal edges (dawg d) (hash_table d h) of
              None \<Rightarrow> Some (Inl Undefined)
            | Some matches \<Rightarrow>
                if matches then Some (Inr (hash_table d h + 1, d))
                else if hash_modulo_increment h inc \<noteq> initial_hash
                then probe d edges initial_hash
                       (hash_modulo_increment h inc) (hash_modulo_increment inc 8)
                else Some (Inl HashTableFull)))"

declare probe.simps [code]

definition insertEdges :: "Dawg \<Rightarrow> EdgeList \<Rightarrow> (error + nat \<times> Dawg) option" where
  "insertEdges d edges = probe d edges (hash edges) (hash edges) 9"

text \<open>
  \<open>Dawg::parse\<close>. The vector \<open>edges\<close> of pending edge lists is a list with its back first;
  each edge list is in the order of the source. \<open>on_last f es\<close> is \<open>f\<close> applied to
  \<open>es.back()\<close>. \<open>unwind\<close> is the loop \<open>while (idx > next.first)\<close>, \<open>extend\<close> the loop
  \<open>while (idx < next.second.size())\<close>, \<open>parse_loop\<close> the loop \<open>for (;;)\<close>.
\<close>

definition on_last :: "(node \<Rightarrow> node) \<Rightarrow> EdgeList \<Rightarrow> EdgeList" where
  "on_last f es = butlast es @ [f (last es)]"

function unwind ::
  "Dawg \<Rightarrow> EdgeList list \<Rightarrow> nat \<Rightarrow> nat \<Rightarrow> (error + Dawg \<times> EdgeList list \<times> nat) option" where
  "unwind d edges idx p =
     (if idx > p then
        (case edges of
           [] \<Rightarrow> Some (Inl Undefined)
         | ready # popped \<Rightarrow>
             if ready \<noteq> [] then
               (case insertEdges d (on_last setEndOfNode ready) of
                  None \<Rightarrow> None
                | Some (Inl e) \<Rightarrow> Some (Inl e)
                | Some (Inr (offset, d')) \<Rightarrow>
                    (case popped of
                       [] \<Rightarrow> Some (Inl Undefined)
                     | tp # below \<Rightarrow>
                         if tp = [] then Some (Inl Undefined)
                         else unwind d'
                                (on_last (\<lambda>n. setChildOffset n (of_nat offset)) tp # below)
                                (idx - 1) p))
             else unwind d popped (idx - 1) p)
      else Some (Inr (d, edges, idx)))"
  by pat_completeness auto
termination
  by (relation "measure (\<lambda>(d, edges, idx, p). idx)") auto

declare unwind.simps [simp del]

function extend :: "EdgeList list \<Rightarrow> nat \<Rightarrow> byte list \<Rightarrow> error + EdgeList list \<times> nat" where
  "extend edges idx w =
     (if idx < length w then
        (case edges of
           [] \<Rightarrow> Inl Undefined
         | tp # below \<Rightarrow>
             extend ([] # (tp @ [mk_Node (w ! idx) (idx + 1 = length w)]) # below) (idx + 1) w)
      else Inr (edges, idx))"
  by pat_completeness auto
termination
  by (relation "measure (\<lambda>(edges, idx, w). length w - idx)") auto

declare extend.simps [simp del]

function parse_loop ::
  "platform \<Rightarrow> WordBuffer \<Rightarrow> Dawg \<Rightarrow> EdgeList list \<Rightarrow> nat
     \<Rightarrow> (error + Dawg \<times> EdgeList list) option" where
  "parse_loop pf word d edges idx =
     (case WordBuffer_next pf word of
        Inl e \<Rightarrow> Some (Inl e)
      | Inr ((p, w), word') \<Rightarrow>
          if idx < p then Some (Inl PrefixOverflow)
          else
            (case unwind d edges idx p of
               None \<Rightarrow> None
             | Some (Inl e) \<Rightarrow> Some (Inl e)
             | Some (Inr (d', edges', idx')) \<Rightarrow>
                 if w = [] then
                   (if idx' \<noteq> 0 then Some (Inl DanglingEdges) else Some (Inr (d', edges')))
                 else
                   (case extend edges' idx' w of
                      Inl e \<Rightarrow> Some (Inl e)
                    | Inr (edges'', idx'') \<Rightarrow> parse_loop pf word' d' edges'' idx'')))"
  by pat_completeness auto
termination
proof -
  have drop_le: "length (dropWhile P xs) \<le> length xs" for P and xs :: "byte list"
    by (induction xs) auto
  have ext_le: "length (rest (fst (op_extract inp s))) \<le> length (rest inp)" for inp s
    using drop_le [of "\<lambda>c. \<not> isspace c" "dropWhile isspace (rest inp)"]
      drop_le [of isspace "rest inp"]
    by (auto simp: op_extract_def Let_def)
  have ext_lt: "length (rest (fst (op_extract inp s))) < length (rest inp)"
    if "\<not> failbit (fst (op_extract inp s))" for inp s
  proof -
    let ?r = "dropWhile isspace (rest inp)"
    from that have ne: "?r \<noteq> []" and good: "\<not> eofbit inp" "\<not> failbit inp"
      by (auto simp: op_extract_def Let_def split: if_splits)
    then obtain y ys where ys: "?r = y # ys" by (cases ?r) auto
    then have "\<not> isspace y" using hd_dropWhile [of isspace "rest inp"] by simp
    then have "length (dropWhile (\<lambda>c. \<not> isspace c) ?r) \<le> length ys"
      using drop_le [of "\<lambda>c. \<not> isspace c" ys] ys by simp
    moreover have "length (y # ys) \<le> length (rest inp)"
      using drop_le [of isspace "rest inp"] ys by simp
    ultimately show ?thesis using ne good by (auto simp: op_extract_def Let_def)
  qed
  have skip: "(s' \<noteq> s \<longrightarrow> length (rest inp') < length (rest inp))
              \<and> length (rest inp') \<le> length (rest inp)"
    if "skip_short inp cnt s = (inp', cnt', s')" for inp cnt s inp' cnt' s'
    using that
  proof (induction inp cnt s arbitrary: inp' cnt' s' rule: skip_short.induct)
    case (1 inp cnt s)
    obtain i1 s1 where e: "op_extract inp s = (i1, s1)" by (cases "op_extract inp s")
    show ?case
    proof (cases "\<not> failbit i1 \<and> length s1 < 2")
      case True
      then have rec: "skip_short i1 (cnt + 1) s1 = (inp', cnt', s')"
        using "1.prems" e by (subst (asm) skip_short.simps) simp
      have lt: "length (rest i1) < length (rest inp)"
        using ext_lt [of inp s] True e by simp
      have "s1 \<noteq> s \<or> s1 = s" by simp
      from "1.IH" [OF e [symmetric] True rec] lt show ?thesis by auto
    next
      case False
      then have eq: "inp' = i1 \<and> s' = s1"
        using "1.prems" e by (subst (asm) skip_short.simps) auto
      have "s1 \<noteq> s \<Longrightarrow> \<not> failbit i1"
        using e by (auto simp: op_extract_def Let_def split: if_splits)
      then show ?thesis
        using ext_lt [of inp s] ext_le [of inp s] e eq by auto
    qed
  qed
  have nxt: "length (rest (input word')) < length (rest (input word))"
    if "WordBuffer_next pf word = Inr ((p, w), word')" "w \<noteq> []" for pf word p w word'
  proof -
    from that obtain cnt' where
      "skip_short (input word) (count word) [] = (input word', cnt', w)"
      by (auto simp: WordBuffer_next_def split: prod.splits option.splits if_splits)
    from skip [OF this] that show ?thesis by auto
  qed
  show ?thesis
    by (relation "measure (\<lambda>(pf, word, d, edges, idx). length (rest (input word)))")
       (auto dest: nxt)
qed

declare parse_loop.simps [simp del]

text \<open>The last part of \<open>parse\<close>, after the loop: the root edge list, padded, goes to the front.\<close>

definition finalise :: "Dawg \<Rightarrow> EdgeList list \<Rightarrow> error + Dawg" where
  "finalise d edges =
     (case edges of
        [] \<Rightarrow> Inl Undefined
      | root # below \<Rightarrow>
          let root1 = (if root \<noteq> [] then on_last setEndOfNode root else root);
              root2 = take MAX_CHARS root1 @ replicate (MAX_CHARS - length root1) 0;
              root3 = on_last setEndOfNode root2
          in if length (dawg d) < MAX_CHARS then Inl Undefined
             else Inr (d\<lparr>dawg := root3 @ drop MAX_CHARS (dawg d)\<rparr>))"

definition parse :: "platform \<Rightarrow> istream \<Rightarrow> Dawg \<Rightarrow> (error + Dawg) option" where
  "parse pf inp d =
     (case parse_loop pf \<lparr>count = 0, current = [], input = inp\<rparr> d [[]] 0 of
        None \<Rightarrow> None
      | Some (Inl e) \<Rightarrow> Some (Inl e)
      | Some (Inr (d', edges)) \<Rightarrow> Some (finalise d' edges))"

subsection \<open>main\<close>

text \<open>
  The two commands on the bytes of their input file: \<open>create\<close> gives the bytes written to
  the output file, \<open>dump_file\<close> the text written and the errors reported by \<open>dump\<close>.
  An \<open>Inl\<close> is the exception that reaches the handler of \<open>main\<close> (exit code 1).
\<close>

definition istream_of :: "byte list \<Rightarrow> istream" where
  "istream_of bs = \<lparr>rest = bs, eofbit = False, failbit = False\<rparr>"

definition create :: "platform \<Rightarrow> byte list \<Rightarrow> (error + byte list) option" where
  "create pf text =
     (case parse pf (istream_of text) Dawg_init of
        None \<Rightarrow> None
      | Some (Inl e) \<Rightarrow> Some (Inl e)
      | Some (Inr d) \<Rightarrow> Some (Inr (save d)))"

definition dump_file :: "byte list \<Rightarrow> (error + byte list \<times> error list) option" where
  "dump_file file = (case load file of Inl e \<Rightarrow> Some (Inl e) | Inr d \<Rightarrow> dump d)"

section \<open>Notions for the statements\<close>

text \<open>
  The tokens of a text: the maximal runs of characters that are not white space, in
  order. \<open>remaining\<close> is what a stream still has to give.
\<close>

function tokens :: "byte list \<Rightarrow> byte list list" where
  "tokens bs =
     (case dropWhile isspace bs of
        [] \<Rightarrow> []
      | c # cs \<Rightarrow> takeWhile (\<lambda>c. \<not> isspace c) (c # cs)
                 # tokens (dropWhile (\<lambda>c. \<not> isspace c) cs))"
  by pat_completeness auto
termination
proof -
  have drop_le: "length (dropWhile P xs) \<le> length xs" for P and xs :: "byte list"
    by (induction xs) auto
  have "length (dropWhile (\<lambda>c. \<not> isspace c) cs) < length bs"
    if "dropWhile isspace bs = c # cs" for bs c cs
    using drop_le [of "\<lambda>c. \<not> isspace c" cs] drop_le [of isspace bs] that by simp
  then show ?thesis
    by (relation "measure length") auto
qed

declare tokens.simps [simp del]

definition remaining :: "istream \<Rightarrow> byte list list" where
  "remaining inp = (if eofbit inp \<or> failbit inp then [] else tokens (rest inp))"

text \<open>
  The words an arena spells from the edge group that starts at index \<open>j\<close>, in the
  order of the edges; every group on the way starts at \<open>lo\<close> or later. An edge gives
  its letter if it ends a word, and its letter before every word of its child group.
\<close>

definition edge_words :: "node \<Rightarrow> byte list list \<Rightarrow> byte list list" where
  "edge_words n cw = (if isEndOfWord n then [[getChar n]] else []) @ map ((#) (getChar n)) cw"

inductive group_sem :: "nat \<Rightarrow> node list \<Rightarrow> nat \<Rightarrow> byte list list \<Rightarrow> bool"
  for lo :: nat and arena :: "node list" where
  last_leaf:
    "\<lbrakk>lo \<le> j; j < length arena; isEndOfNode (arena ! j); getOffset (arena ! j) = 0\<rbrakk>
     \<Longrightarrow> group_sem lo arena j (edge_words (arena ! j) [])"
| last_child:
    "\<lbrakk>lo \<le> j; j < length arena; isEndOfNode (arena ! j); getOffset (arena ! j) \<noteq> 0;
      group_sem lo arena (unat (getOffset (arena ! j)) - 1) cw\<rbrakk>
     \<Longrightarrow> group_sem lo arena j (edge_words (arena ! j) cw)"
| more_leaf:
    "\<lbrakk>lo \<le> j; j < length arena; \<not> isEndOfNode (arena ! j); getOffset (arena ! j) = 0;
      group_sem lo arena (Suc j) ws\<rbrakk>
     \<Longrightarrow> group_sem lo arena j (edge_words (arena ! j) [] @ ws)"
| more_child:
    "\<lbrakk>lo \<le> j; j < length arena; \<not> isEndOfNode (arena ! j); getOffset (arena ! j) \<noteq> 0;
      group_sem lo arena (unat (getOffset (arena ! j)) - 1) cw;
      group_sem lo arena (Suc j) ws\<rbrakk>
     \<Longrightarrow> group_sem lo arena j (edge_words (arena ! j) cw @ ws)"

definition spine :: "node list \<Rightarrow> nat list \<Rightarrow> byte list" where
  "spine arena stk = map (\<lambda>i. getChar (arena ! i)) (rev stk)"

definition dump_cont ::
  "node list \<Rightarrow> nat list \<Rightarrow> byte list \<Rightarrow> (error + byte list \<times> error list) option" where
  "dump_cont arena stk os =
     (case advance arena stk of
        None \<Rightarrow> Some (Inl Undefined)
      | Some stk' \<Rightarrow> dump_loop arena stk' os)"

definition lines_of :: "byte list \<Rightarrow> byte list list \<Rightarrow> byte list" where
  "lines_of pre ws = concat (map (\<lambda>w. pre @ w @ [0x0a]) ws)"

text \<open>The arena and the file of the empty lexicon.\<close>

definition empty_root :: "node list" where
  "empty_root = replicate 255 0 @ [end_of_node]"

definition empty_file :: "byte list" where
  "empty_file = [0, 1, 0, 0] @ replicate 1020 0 @ [0, 0, 0x40, 0]"

text \<open>
  Interning as the specification words it: the hash is the fold of
  \<open>h' = value XOR rotl1 h\<close> from 0, reduced modulo 240007; the probe starts there, a miss
  moves it on by an increment that starts at 9 and grows by 8, both modulo 240007; coming
  back to the first slot is \<open>HashTableFull\<close>.
\<close>

definition spec_hash :: "EdgeList \<Rightarrow> nat" where
  "spec_hash edges = unat (foldl (\<lambda>h v. v XOR word_rotl 1 h) 0 edges) mod 240007"

partial_function (option) spec_probe ::
  "Dawg \<Rightarrow> EdgeList \<Rightarrow> nat \<Rightarrow> nat \<Rightarrow> nat \<Rightarrow> (error + nat \<times> Dawg) option" where
  "spec_probe d edges initial slot inc =
     (if hash_table d slot = 0
      then Some (Inr (length (dawg d) + 1,
                      d\<lparr>dawg := dawg d @ edges,
                        hash_table := (hash_table d)(slot := length (dawg d))\<rparr>))
      else (case equal edges (dawg d) (hash_table d slot) of
              None \<Rightarrow> Some (Inl Undefined)
            | Some matches \<Rightarrow>
                if matches then Some (Inr (hash_table d slot + 1, d))
                else if (slot + inc) mod 240007 = initial then Some (Inl HashTableFull)
                else spec_probe d edges initial ((slot + inc) mod 240007) ((inc + 8) mod 240007)))"

definition intern_spec :: "Dawg \<Rightarrow> EdgeList \<Rightarrow> (error + nat \<times> Dawg) option" where
  "intern_spec d edges = spec_probe d edges (spec_hash edges) (spec_hash edges) 9"

text \<open>
  The padded root group as the specification words it: the last edge of the root edge
  list receives \<open>end_of_node\<close>, the list is padded on the right with zero nodes to 256
  entries (and holds no more than 256), and entry 255 has \<open>end_of_node\<close> set.
\<close>

definition padded_root :: "EdgeList \<Rightarrow> node list" where
  "padded_root root =
     (let marked = (if root = [] then [] else butlast root @ [last root OR 0x00400000]);
          padded = take 256 marked @ replicate (256 - length marked) 0
      in padded[255 := padded ! 255 OR 0x00400000])"

text \<open>
  One state of the builder grows into another: the arena is extended at its end and
  every occupied slot of the hash table keeps its content.
\<close>

definition grows :: "Dawg \<Rightarrow> Dawg \<Rightarrow> bool" where
  "grows d d' \<longleftrightarrow>
     prefix (dawg d) (dawg d') \<and> (\<forall>s. hash_table d s \<noteq> 0 \<longrightarrow> hash_table d' s = hash_table d s)"

text \<open>
  A run of calls of \<open>insertEdges\<close>, one after the other on the same builder, with the
  offsets they return. \<open>one_group\<close> is what \<open>parse\<close> passes: a non-empty edge list with
  \<open>end_of_node\<close> on its last edge only. An edge list is located at an arena index when
  the arena holds its nodes from there on.
\<close>

fun intern_all :: "Dawg \<Rightarrow> EdgeList list \<Rightarrow> (error + nat list \<times> Dawg) option" where
  "intern_all d [] = Some (Inr ([], d))"
| "intern_all d (es # ess) =
     (case insertEdges d es of
        None \<Rightarrow> None
      | Some (Inl e) \<Rightarrow> Some (Inl e)
      | Some (Inr (off, d')) \<Rightarrow>
          (case intern_all d' ess of
             None \<Rightarrow> None
           | Some (Inl e) \<Rightarrow> Some (Inl e)
           | Some (Inr (offs, d'')) \<Rightarrow> Some (Inr (off # offs, d''))))"

definition one_group :: "EdgeList \<Rightarrow> bool" where
  "one_group es \<longleftrightarrow>
     es \<noteq> [] \<and> isEndOfNode (last es) \<and> (\<forall>e \<in> set (butlast es). \<not> isEndOfNode e)"

definition located :: "node list \<Rightarrow> nat \<Rightarrow> EdgeList \<Rightarrow> bool" where
  "located arena j es \<longleftrightarrow> take (length es) (drop j arena) = es"

text \<open>
  Words that pass the order check of the reader whatever the implementation: at least two
  characters, at most as many as a string stores in place, every character positive as a
  \<open>char\<close>. \<open>byte_lex\<close> is the lexicographic order of byte strings, a proper prefix
  before its extensions.
\<close>

definition good_word :: "platform \<Rightarrow> byte list \<Rightarrow> bool" where
  "good_word pf w \<longleftrightarrow>
     2 \<le> length w \<and> length w \<le> sso_capacity pf \<and> (\<forall>c \<in> set w. char_less pf 0 c)"

definition byte_lex :: "(byte list \<times> byte list) set" where
  "byte_lex = lexord {(a, b). a < b}"

text \<open>
  The state of the builder while it reads. The pending edge lists denote words through
  the groups already in the arena: an edge with an offset gives the words of its child
  group, and the last edge of a pending list gives the words of the list above it.
  \<open>same_from\<close> says that one arena agrees with another from an index on.
\<close>

definition child_sem :: "nat \<Rightarrow> node list \<Rightarrow> node \<Rightarrow> byte list list \<Rightarrow> bool" where
  "child_sem lo arena n cw \<longleftrightarrow>
     (if getOffset n = 0 then cw = [] else group_sem lo arena (unat (getOffset n) - 1) cw)"

fun nodes_sem :: "nat \<Rightarrow> node list \<Rightarrow> EdgeList \<Rightarrow> byte list list \<Rightarrow> bool" where
  "nodes_sem lo arena [] ws \<longleftrightarrow> ws = []"
| "nodes_sem lo arena (n # ns) ws \<longleftrightarrow>
     (\<exists>cw ws'. child_sem lo arena n cw \<and> nodes_sem lo arena ns ws' \<and> ws = edge_words n cw @ ws')"

fun stack_sem ::
  "nat \<Rightarrow> node list \<Rightarrow> EdgeList list \<Rightarrow> byte list list \<Rightarrow> byte list list \<Rightarrow> bool" where
  "stack_sem lo arena [] pw W \<longleftrightarrow> W = pw"
| "stack_sem lo arena (e # below) pw W \<longleftrightarrow>
     (if e = [] then pw = [] \<and> stack_sem lo arena below [] W
      else \<exists>ws cw. nodes_sem lo arena (butlast e) ws \<and> child_sem lo arena (last e) cw
             \<and> stack_sem lo arena below (ws @ edge_words (last e) (cw @ pw)) W)"

definition same_from :: "nat \<Rightarrow> node list \<Rightarrow> node list \<Rightarrow> bool" where
  "same_from lo arena arena' \<longleftrightarrow>
     (\<forall>i. lo \<le> i \<and> i < length arena \<longrightarrow> i < length arena' \<and> arena' ! i = arena ! i)"

text \<open>The letters of the last edges of the pending lists, the root's first.\<close>

definition spine_of :: "EdgeList list \<Rightarrow> byte list" where
  "spine_of st = map (\<lambda>e. getChar (last e)) (rev st)"

definition tbl_ok :: "Dawg \<Rightarrow> bool" where
  "tbl_ok d \<longleftrightarrow>
     256 \<le> length (dawg d)
     \<and> (\<forall>s. hash_table d s \<noteq> 0 \<longrightarrow>
           256 \<le> hash_table d s \<and> (\<exists>g. one_group g \<and> located (dawg d) (hash_table d s) g))"

definition pending_ok :: "EdgeList list \<Rightarrow> bool" where
  "pending_ok edges \<longleftrightarrow>
     edges \<noteq> []
     \<and> (\<forall>e \<in> set (tl edges). e \<noteq> [] \<and> getOffset (last e) = 0)
     \<and> (\<forall>e \<in> set edges. (\<forall>n \<in> set e. \<not> isEndOfNode n) \<and> sorted_wrt (<) (map getChar e))"

definition spine_ok :: "EdgeList list \<Rightarrow> nat \<Rightarrow> byte list \<Rightarrow> bool" where
  "spine_ok edges idx prev \<longleftrightarrow>
     length edges = idx + 1 \<and> idx \<le> length prev
     \<and> spine_of (tl edges) = take idx prev
     \<and> (hd edges \<noteq> [] \<longrightarrow> idx < length prev \<and> getChar (last (hd edges)) = prev ! idx)"

definition sem_ok :: "Dawg \<Rightarrow> EdgeList list \<Rightarrow> byte list list \<Rightarrow> bool" where
  "sem_ok d edges W \<longleftrightarrow> (length (dawg d) < 2 ^ 21 \<longrightarrow> stack_sem 256 (dawg d) edges [] W)"

definition builder_ok :: "Dawg \<Rightarrow> EdgeList list \<Rightarrow> nat \<Rightarrow> byte list \<Rightarrow> byte list list \<Rightarrow> bool" where
  "builder_ok d edges idx prev W \<longleftrightarrow>
     tbl_ok d \<and> pending_ok edges \<and> spine_ok edges idx prev \<and> sem_ok d edges W"

section \<open>The fields of a node\<close>

lemma bit_end_of_word: "bit end_of_word n \<longleftrightarrow> n = 23"
proof -
  have h: "end_of_word = (push_bit 23 1 :: u32)" by (simp add: end_of_word_def)
  show ?thesis unfolding h by (auto simp del: push_bit_of_1 simp add: bit_simps)
qed

lemma bit_end_of_node: "bit end_of_node n \<longleftrightarrow> n = 22"
proof -
  have h: "end_of_node = (push_bit 22 1 :: u32)" by (simp add: end_of_node_def)
  show ?thesis unfolding h by (auto simp del: push_bit_of_1 simp add: bit_simps)
qed

lemma bit_offset_mask: "bit offset_mask n \<longleftrightarrow> n < 21"
proof -
  have h: "offset_mask = mask 21" by (simp add: offset_mask_def mask_eq_exp_minus_1)
  show ?thesis unfolding h by (auto simp add: bit_simps)
qed

lemma bit_letter_mask: "bit letter_mask n \<longleftrightarrow> 24 \<le> n \<and> n < 32"
proof -
  have h: "letter_mask = push_bit 24 (mask 8)" by (simp add: letter_mask_def mask_eq_exp_minus_1)
  show ?thesis unfolding h by (auto simp add: bit_simps)
qed

lemmas node_defs = mk_Node_def getOffset_def getChar_def
  setEndOfNode_def setChildOffset_def letter_shift_def

lemmas node_bits = bit_end_of_word bit_end_of_node bit_offset_mask bit_letter_mask bit_simps

lemma isEndOfWord_alt: "isEndOfWord v \<longleftrightarrow> bit v 23"
proof -
  have "bit (v AND end_of_word) 23" if "bit v 23"
    using that by (simp add: node_bits)
  then have "v AND end_of_word \<noteq> 0" if "bit v 23"
    using that by force
  moreover have "v AND end_of_word = 0" if "\<not> bit v 23"
    using that by (intro bit_word_eqI) (auto simp: node_bits)
  ultimately show ?thesis by (auto simp: isEndOfWord_def)
qed

lemma isEndOfNode_alt: "isEndOfNode v \<longleftrightarrow> bit v 22"
proof -
  have "bit (v AND end_of_node) 22" if "bit v 22"
    using that by (simp add: node_bits)
  then have "v AND end_of_node \<noteq> 0" if "bit v 22"
    using that by force
  moreover have "v AND end_of_node = 0" if "\<not> bit v 22"
    using that by (intro bit_word_eqI) (auto simp: node_bits)
  ultimately show ?thesis by (auto simp: isEndOfNode_def)
qed

lemma getOffset_mk_Node [simp]: "getOffset (mk_Node c w) = 0"
  by (rule bit_word_eqI) (auto simp: node_defs node_bits)

lemma getChar_mk_Node [simp]: "getChar (mk_Node c w) = c"
  by (rule bit_word_eqI) (auto simp: node_defs node_bits)

lemma isEndOfWord_mk_Node [simp]: "isEndOfWord (mk_Node c w) = w"
  by (auto simp: isEndOfWord_alt node_defs node_bits)

lemma isEndOfNode_mk_Node [simp]: "\<not> isEndOfNode (mk_Node c w)"
  by (auto simp: isEndOfNode_alt node_defs node_bits)

lemma unat_and_offset_mask: "unat (x AND offset_mask) = unat x mod 2 ^ 21"
proof -
  have h: "offset_mask = mask 21" by (simp add: offset_mask_def mask_eq_exp_minus_1)
  show ?thesis
    unfolding h take_bit_eq_mask [symmetric] unsigned_take_bit_eq
    by (rule take_bit_eq_mod)
qed

lemma getOffset_setChildOffset:
  "getOffset (setChildOffset v off) = getOffset v OR (off AND offset_mask)"
  by (rule bit_word_eqI) (auto simp: getOffset_def setChildOffset_def bit_simps)

section \<open>Interning into an empty slot\<close>

lemma probe_empty:
  "hash_table d h = 0 \<Longrightarrow>
   probe d es i h inc = Some (Inr (length (dawg d) + 1,
      d\<lparr>dawg := dawg d @ es, hash_table := (hash_table d)(h := length (dawg d))\<rparr>))"
  by (subst probe.simps) simp

section \<open>Reading tokens\<close>

lemma tokens_Nil_iff: "tokens bs = [] \<longleftrightarrow> (\<forall>c \<in> set bs. isspace c)"
proof -
  have "tokens bs = [] \<longleftrightarrow> dropWhile isspace bs = []"
    by (subst tokens.simps) (simp split: list.splits del: dropWhile_eq_Nil_conv)
  then show ?thesis by (simp add: dropWhile_eq_Nil_conv)
qed

lemma op_extract_Nil:
  "remaining inp = [] \<Longrightarrow> \<exists>inp'. op_extract inp s = (inp', s) \<and> failbit inp' \<and> remaining inp' = []"
  by (auto simp: remaining_def op_extract_def Let_def tokens_Nil_iff dropWhile_eq_Nil_conv
      split: if_splits)

lemma op_extract_Cons:
  assumes "remaining inp = t # ts"
  shows "\<exists>inp'. op_extract inp s = (inp', t) \<and> \<not> failbit inp' \<and> remaining inp' = ts"
proof -
  from assms have good: "\<not> eofbit inp" "\<not> failbit inp" and tk: "tokens (rest inp) = t # ts"
    by (auto simp: remaining_def split: if_splits)
  from tk obtain c cs where r: "dropWhile isspace (rest inp) = c # cs"
    and t: "t = takeWhile (\<lambda>c. \<not> isspace c) (c # cs)"
    and ts: "ts = tokens (dropWhile (\<lambda>c. \<not> isspace c) cs)"
    by (subst (asm) tokens.simps) (auto split: list.splits)
  have nsp: "\<not> isspace c" using hd_dropWhile [of isspace "rest inp"] r by simp
  let ?r' = "dropWhile (\<lambda>c. \<not> isspace c) cs"
  have e: "op_extract inp s = (inp\<lparr>rest := ?r', eofbit := (?r' = [])\<rparr>, t)"
    using good r t nsp by (simp add: op_extract_def Let_def)
  have "remaining (inp\<lparr>rest := ?r', eofbit := (?r' = [])\<rparr>) = ts"
  proof (cases "?r' = []")
    case True
    then have "ts = tokens []" using ts by (simp only:)
    then have "ts = []" by (simp add: tokens_Nil_iff)
    with True show ?thesis by (simp add: remaining_def)
  next
    case False
    then show ?thesis using good ts by (auto simp: remaining_def)
  qed
  with e good show ?thesis by simp
qed

lemma skip_short_Nil:
  assumes "remaining inp = []"
  shows "\<exists>inp'. skip_short inp cnt s = (inp', cnt, s) \<and> remaining inp' = []"
proof -
  from op_extract_Nil [OF assms, of s] obtain inp' where
    "op_extract inp s = (inp', s)" "failbit inp'" "remaining inp' = []" by blast
  then show ?thesis by (subst skip_short.simps) simp
qed

lemma skip_short_long:
  assumes "remaining inp = t # ts" "2 \<le> length t"
  shows "\<exists>inp'. skip_short inp cnt s = (inp', cnt, t) \<and> remaining inp' = ts"
proof -
  from op_extract_Cons [OF assms(1), of s] obtain inp' where
    "op_extract inp s = (inp', t)" "\<not> failbit inp'" "remaining inp' = ts" by blast
  then show ?thesis using assms(2) by (subst skip_short.simps) simp
qed

lemma WordBuffer_next_end:
  assumes "remaining (input wb) = []"
  shows "\<exists>wb'. WordBuffer_next pf wb = Inr ((0, []), wb') \<and> current wb' = []
           \<and> remaining (input wb') = []"
proof -
  from skip_short_Nil [OF assms, of "count wb" "[]"] obtain inp' where
    "skip_short (input wb) (count wb) [] = (inp', count wb, [])" "remaining inp' = []" by blast
  then show ?thesis by (simp add: WordBuffer_next_def)
qed

lemma unwind_done: "\<not> p < idx \<Longrightarrow> unwind d edges idx p = Some (Inr (d, edges, idx))"
  by (subst unwind.simps) simp

lemma parse_loop_no_tokens:
  assumes "remaining (input wb) = []"
  shows "parse_loop pf wb d [[]] 0 = Some (Inr (d, [[]]))"
proof -
  from WordBuffer_next_end [OF assms, of pf] obtain wb' where
    "WordBuffer_next pf wb = Inr ((0, []), wb')" by blast
  then show ?thesis by (subst parse_loop.simps) (simp add: unwind_done)
qed

section \<open>Writing and reading the file\<close>

lemma read_u32_output_u32: "read_u32 (output_u32 v) = v"
proof (rule bit_word_eqI)
  fix n
  assume "n < LENGTH(32)"
  then consider "n < 8" | "8 \<le> n" "n < 16" | "16 \<le> n" "n < 24" | "24 \<le> n" "n < 32"
    by fastforce
  then show "bit (read_u32 (output_u32 v)) n = bit v n"
    by cases (auto simp: read_u32_def output_u32_def bit_simps)
qed

lemma read_nodes_output: "read_nodes (concat (map output_u32 xs)) = xs"
proof (induction xs)
  case Nil
  show ?case by simp
next
  case (Cons x xs)
  have "read_nodes (output_u32 x @ bs) = read_u32 (output_u32 x) # read_nodes bs" for bs
    by (simp add: output_u32_def)
  with Cons show ?case by (simp add: read_u32_output_u32)
qed

lemma length_concat_output: "length (concat (map output_u32 xs)) = 4 * length xs"
  by (induction xs) (simp_all add: output_u32_def)

lemma load_save:
  assumes "length (dawg d) < 2 ^ 30 - 1"
  shows "load (save d) = Inr \<lparr>dawg = dawg d, hash_table = (\<lambda>_. 0)\<rparr>"
proof -
  let ?n = "length (dawg d)"
  let ?e = "of_nat ?n :: u32"
  have hd: "take 4 (save d) = output_u32 ?e" and tl: "drop 4 (save d) = concat (map output_u32 (dawg d))"
    by (simp_all add: save_def output_u32_def)
  have len: "length (save d) = 4 * ?n + 4"
    by (simp add: save_def length_concat_output) (simp add: output_u32_def)
  have n: "unat ?e = ?n"
    using assms by (simp add: unat_of_nat)
  have "unat (?e * 4 + 4) = (unat ?e * 4 + 4) mod 2 ^ 32"
    by (simp add: unat_word_ariths mod_simps)
  also have "\<dots> = 4 * ?n + 4"
    using assms n by simp
  finally have sz: "unat (?e * 4 + 4) = length (save d)"
    using len by simp
  show ?thesis
    using len
    by (simp add: load_def Let_def hd tl read_u32_output_u32 sz n read_nodes_output)
qed

section \<open>The traversal of a well-formed group\<close>

lemma group_sem_bound: "group_sem lo arena j ws \<Longrightarrow> lo \<le> j \<and> j < length arena"
  by (induction rule: group_sem.induct) auto

lemma lines_of_append [simp]: "lines_of pre (xs @ ys) = lines_of pre xs @ lines_of pre ys"
  by (simp add: lines_of_def)

lemma lines_of_Nil [simp]: "lines_of pre [] = []"
  by (simp add: lines_of_def)

lemma lines_of_edge_words:
  "lines_of pre (edge_words n cw)
   = (if isEndOfWord n then pre @ [getChar n, 0x0a] else []) @ lines_of (pre @ [getChar n]) cw"
  by (simp add: lines_of_def edge_words_def comp_def)

lemma spine_Cons: "spine arena (j # stk) = spine arena stk @ [getChar (arena ! j)]"
  by (simp add: spine_def)

lemma dump_loop_leaf:
  assumes "j < length arena" "\<forall>i \<in> set stk. i < length arena" "getOffset (arena ! j) = 0"
  shows "dump_loop arena (j # stk) os
         = dump_cont arena (j # stk) (os @ lines_of (spine arena stk) (edge_words (arena ! j) []))"
  using assms
  by (subst dump_loop.simps)
     (simp add: dump_cont_def lines_of_edge_words spine_Cons spine_def Let_def
        cong: option.case_cong)

lemma dump_loop_child:
  assumes "j < length arena" "\<forall>i \<in> set stk. i < length arena" "getOffset (arena ! j) \<noteq> 0"
    "unat (getOffset (arena ! j)) - 1 < length arena"
  shows "dump_loop arena (j # stk) os
         = dump_loop arena ((unat (getOffset (arena ! j)) - 1) # j # stk)
             (os @ lines_of (spine arena stk) (edge_words (arena ! j) []))"
  using assms
  by (subst dump_loop.simps)
     (simp add: lines_of_edge_words spine_Cons spine_def Let_def)

lemma dump_cont_last:
  "j < length arena \<Longrightarrow> isEndOfNode (arena ! j)
   \<Longrightarrow> dump_cont arena (j # stk) os = dump_cont arena stk os"
  by (simp add: dump_cont_def)

lemma dump_cont_more:
  "j < length arena \<Longrightarrow> \<not> isEndOfNode (arena ! j)
   \<Longrightarrow> dump_cont arena (j # stk) os = dump_loop arena (Suc j # stk) os"
  by (simp add: dump_cont_def)

lemma lines_edge_split:
  "lines_of pre (edge_words n cw) = lines_of pre (edge_words n []) @ lines_of (pre @ [getChar n]) cw"
  by (simp add: lines_of_edge_words)

lemma dump_group:
  assumes "group_sem lo arena j ws"
  shows "(\<forall>i \<in> set stk. i < length arena)
         \<Longrightarrow> dump_loop arena (j # stk) os
             = dump_cont arena stk (os @ lines_of (spine arena stk) ws)"
  using assms
proof (induction arbitrary: stk os rule: group_sem.induct)
  case (last_leaf j)
  then show ?case
    by (simp add: dump_loop_leaf dump_cont_last)
next
  case (last_child j cw)
  have b: "unat (getOffset (arena ! j)) - 1 < length arena"
    using group_sem_bound [OF last_child.hyps(5)] by simp
  have s: "\<forall>i \<in> set (j # stk). i < length arena"
    using last_child by simp
  show ?case
    using last_child.hyps(2,3,4) last_child.prems b
    by (simp add: dump_loop_child last_child.IH [OF s] dump_cont_last spine_Cons
        lines_edge_split [of _ _ cw] del: One_nat_def)
next
  case (more_leaf j ws)
  have s: "\<forall>i \<in> set stk. i < length arena"
    using more_leaf by simp
  show ?case
    using more_leaf.hyps(2,3,4) more_leaf.prems
    by (simp add: dump_loop_leaf dump_cont_more more_leaf.IH [OF s])
next
  case (more_child j cw ws)
  have b: "unat (getOffset (arena ! j)) - 1 < length arena"
    using group_sem_bound [OF more_child.hyps(5)] by simp
  have s: "\<forall>i \<in> set (j # stk). i < length arena"
    using more_child by simp
  have s': "\<forall>i \<in> set stk. i < length arena"
    using more_child by simp
  show ?case
    using more_child.hyps(2,3,4) more_child.prems b
    by (simp add: dump_loop_child more_child.IH(1) [OF s] dump_cont_more spine_Cons
        more_child.IH(2) [OF s'] lines_edge_split [of _ _ cw] del: One_nat_def)
qed

lemma dump_root:
  assumes "group_sem lo (dawg d) 0 ws"
  shows "dump d = Some (Inr (lines_of [] ws, []))"
proof -
  have "dump_loop (dawg d) [] os = Some (Inr (os, []))" for os
    by (subst dump_loop.simps) simp
  then show ?thesis
    using dump_group [OF assms, of "[]" "[]"]
    by (simp add: dump_def dump_cont_def spine_def)
qed

section \<open>The empty lexicon\<close>

lemma on_last_snoc [simp]: "on_last f (xs @ [x]) = xs @ [f x]"
  by (simp add: on_last_def)

lemma finalise_no_words:
  "finalise Dawg_init [[]] = Inr \<lparr>dawg = empty_root, hash_table = (\<lambda>_. 0)\<rparr>"
proof -
  have "replicate (Suc 255) (0 :: node) = replicate 255 0 @ [0]"
    by (simp only: replicate_Suc replicate_append_same)
  then have "replicate 256 (0 :: node) = replicate 255 0 @ [0]"
    by simp
  then show ?thesis
    by (simp add: finalise_def Dawg_init_def MAX_CHARS_def Let_def empty_root_def
        setEndOfNode_def)
qed

lemma zero_node [simp]:
  "\<not> isEndOfWord 0" "\<not> isEndOfNode 0" "getOffset 0 = 0" "getChar 0 = 0"
  by (simp_all add: isEndOfWord_def isEndOfNode_def getOffset_def getChar_def)

lemma end_node [simp]:
  "\<not> isEndOfWord end_of_node" "isEndOfNode end_of_node" "getOffset end_of_node = 0"
  by (simp_all add: isEndOfWord_def isEndOfNode_def getOffset_def end_of_node_def
      end_of_word_def offset_mask_def)

lemma empty_root_sem: "i \<le> 255 \<Longrightarrow> group_sem 0 empty_root i []"
proof (induction "255 - i" arbitrary: i)
  case 0
  then have i: "i = 255" by simp
  have "group_sem 0 empty_root 255 (edge_words (empty_root ! 255) [])"
    by (rule group_sem.last_leaf) (simp_all add: empty_root_def nth_append)
  then show ?case by (simp add: i empty_root_def nth_append edge_words_def)
next
  case (Suc k)
  then have i: "i < 255" and IH: "group_sem 0 empty_root (Suc i) []" by simp_all
  have "group_sem 0 empty_root i (edge_words (empty_root ! i) [] @ [])"
    using i by (intro group_sem.more_leaf IH) (simp_all add: empty_root_def nth_append)
  then show ?case using i by (simp add: empty_root_def nth_append edge_words_def)
qed

lemma save_empty_root: "save \<lparr>dawg = empty_root, hash_table = h\<rparr> = empty_file"
proof -
  have four: "replicate (4 + m) x = x # x # x # x # replicate m x" for m and x :: byte
    by (simp add: eval_nat_numeral)
  have "concat (map output_u32 (replicate n 0)) = replicate (4 * n) 0" for n
    by (induction n) (simp_all add: output_u32_def four)
  then show ?thesis
    by (simp add: save_def empty_root_def empty_file_def output_u32_def end_of_node_def)
qed

lemma create_no_tokens:
  assumes "tokens inp = []"
  shows "create pf inp = Some (Inr empty_file)"
proof -
  have "remaining (input \<lparr>count = 0, current = [], input = istream_of inp\<rparr>) = []"
    using assms by (simp add: remaining_def istream_of_def)
  from parse_loop_no_tokens [OF this]
  show ?thesis
    by (simp add: create_def parse_def finalise_no_words save_empty_root)
qed

lemma dump_empty_file: "dump_file empty_file = Some (Inr ([], []))"
proof -
  have "empty_file = save \<lparr>dawg = empty_root, hash_table = (\<lambda>_. 0)\<rparr>"
    by (simp add: save_empty_root)
  moreover have "load (save \<lparr>dawg = empty_root, hash_table = (\<lambda>_. 0)\<rparr>)
                 = Inr \<lparr>dawg = empty_root, hash_table = (\<lambda>_. 0)\<rparr>"
    by (subst load_save) (simp_all add: empty_root_def)
  moreover have "dump \<lparr>dawg = empty_root, hash_table = (\<lambda>_. 0)\<rparr> = Some (Inr ([], []))"
    using dump_root [of 0 "\<lparr>dawg = empty_root, hash_table = (\<lambda>_. 0)\<rparr>" "[]"]
      empty_root_sem [of 0] by simp
  ultimately show ?thesis by (simp add: dump_file_def)
qed

section \<open>The order check of the reader\<close>

lemma mismatch_lcp:
  "0 \<notin> set s \<Longrightarrow> mismatch s (cur @ [0]) = Some (length (longest_common_prefix s cur))"
proof (induction s arbitrary: cur)
  case Nil
  show ?case by simp
next
  case (Cons c cs)
  then show ?case by (cases cur) auto
qed

lemma longest_common_prefix_same [simp]: "longest_common_prefix xs xs = xs"
  by (induction xs) auto

section \<open>The probe sequence\<close>

lemma rotl1: "push_bit 1 r OR drop_bit 31 r = word_rotl 1 (r :: u32)"
proof (rule bit_word_eqI)
  fix n
  assume n: "n < LENGTH(32)"
  have l: "bit (push_bit 1 r OR drop_bit 31 r) n
           \<longleftrightarrow> (1 \<le> n \<and> bit r (n - 1)) \<or> bit r (31 + n)"
    using n by (simp only: bit_or_iff bit_push_bit_iff bit_drop_bit_eq possible_bit_word) auto
  have r: "bit (word_rotl 1 r) n \<longleftrightarrow> bit r ((n + 31) mod 32)"
    using n by (simp only: bit_word_rotl_iff) simp
  show "bit (push_bit 1 r OR drop_bit 31 r) n = bit (word_rotl 1 r) n"
  proof (cases "n = 0")
    case True
    then show ?thesis unfolding l r by simp
  next
    case False
    then have "(n + 31) mod 32 = n - 1" using n by (simp add: mod_if)
    moreover have "\<not> bit r (31 + n)" using n False by (auto dest: bit_imp_le_length)
    ultimately show ?thesis unfolding l r using False by simp
  qed
qed

lemma hash_fn_rotl: "hash_fn = (\<lambda>h v. v XOR word_rotl 1 h)"
  by (intro ext) (simp only: hash_fn_def rotl1)

lemma hash_spec: "hash es = spec_hash es"
  by (simp add: hash_def spec_hash_def hash_fn_rotl HASH_TABLE_SIZE_def)

lemma hash_less: "hash es < HASH_TABLE_SIZE"
  by (simp add: hash_def HASH_TABLE_SIZE_def)

lemma hash_modulo_increment_mod:
  "base < HASH_TABLE_SIZE \<Longrightarrow> inc < HASH_TABLE_SIZE
   \<Longrightarrow> hash_modulo_increment base inc = (base + inc) mod HASH_TABLE_SIZE"
  by (simp add: hash_modulo_increment_def HASH_TABLE_SIZE_def mod_if)

lemma probe_le_spec:
  assumes run: "probe d es i h inc = Some y"
    and lt: "h < HASH_TABLE_SIZE" "inc < HASH_TABLE_SIZE"
  shows "spec_probe d es i h inc = Some y"
proof -
  have "h < HASH_TABLE_SIZE \<and> inc < HASH_TABLE_SIZE \<longrightarrow> spec_probe d es i h inc = Some y"
  proof (rule probe.raw_induct
      [where P = "\<lambda>d es i h inc y. h < HASH_TABLE_SIZE \<and> inc < HASH_TABLE_SIZE
                    \<longrightarrow> spec_probe d es i h inc = Some y", OF _ run], goal_cases)
    case (1 probe' d es i h inc y)
    show ?case
    proof (intro impI, elim conjE)
      assume b: "h < HASH_TABLE_SIZE" "inc < HASH_TABLE_SIZE"
      have m1: "hash_modulo_increment h inc = (h + inc) mod 240007"
        and m2: "hash_modulo_increment inc 8 = (inc + 8) mod 240007"
        using b hash_modulo_increment_mod [of h inc] hash_modulo_increment_mod [of inc 8]
        by (simp_all add: HASH_TABLE_SIZE_def)
      have nx: "(h + inc) mod 240007 < HASH_TABLE_SIZE \<and> (inc + 8) mod 240007 < HASH_TABLE_SIZE"
        by (simp add: HASH_TABLE_SIZE_def)
      show "spec_probe d es i h inc = Some y"
        using 1(2) 1(1) [of d es i "(h + inc) mod 240007" "(inc + 8) mod 240007" y] nx
        by (subst spec_probe.simps) (auto simp: m1 m2 split: if_splits option.splits)
    qed
  qed
  with lt show ?thesis by simp
qed

lemma spec_le_probe:
  assumes run: "spec_probe d es i h inc = Some y"
    and lt: "h < HASH_TABLE_SIZE" "inc < HASH_TABLE_SIZE"
  shows "probe d es i h inc = Some y"
proof -
  have "h < HASH_TABLE_SIZE \<and> inc < HASH_TABLE_SIZE \<longrightarrow> probe d es i h inc = Some y"
  proof (rule spec_probe.raw_induct
      [where P = "\<lambda>d es i h inc y. h < HASH_TABLE_SIZE \<and> inc < HASH_TABLE_SIZE
                    \<longrightarrow> probe d es i h inc = Some y", OF _ run], goal_cases)
    case (1 probe' d es i h inc y)
    show ?case
    proof (intro impI, elim conjE)
      assume b: "h < HASH_TABLE_SIZE" "inc < HASH_TABLE_SIZE"
      have m1: "hash_modulo_increment h inc = (h + inc) mod 240007"
        and m2: "hash_modulo_increment inc 8 = (inc + 8) mod 240007"
        using b hash_modulo_increment_mod [of h inc] hash_modulo_increment_mod [of inc 8]
        by (simp_all add: HASH_TABLE_SIZE_def)
      have nx: "(h + inc) mod 240007 < HASH_TABLE_SIZE \<and> (inc + 8) mod 240007 < HASH_TABLE_SIZE"
        by (simp add: HASH_TABLE_SIZE_def)
      show "probe d es i h inc = Some y"
        using 1(2) 1(1) [of d es i "(h + inc) mod 240007" "(inc + 8) mod 240007" y] nx
        by (subst probe.simps) (auto simp: m1 m2 split: if_splits option.splits)
    qed
  qed
  with lt show ?thesis by simp
qed

lemma probe_eq_spec:
  assumes "h < HASH_TABLE_SIZE" "inc < HASH_TABLE_SIZE"
  shows "probe d es i h inc = spec_probe d es i h inc"
proof (cases "probe d es i h inc")
  case None
  show ?thesis
  proof (cases "spec_probe d es i h inc")
    case None
    with \<open>probe d es i h inc = None\<close> show ?thesis by simp
  next
    case (Some y)
    from spec_le_probe [OF this assms] \<open>probe d es i h inc = None\<close> show ?thesis by simp
  qed
next
  case (Some y)
  from probe_le_spec [OF this assms] Some show ?thesis by simp
qed

section \<open>What the builder leaves alone\<close>

lemma grows_refl [simp]: "grows d d"
  by (simp add: grows_def)

lemma grows_trans: "grows a b \<Longrightarrow> grows b c \<Longrightarrow> grows a c"
  by (auto simp: grows_def)

lemma probe_grows:
  assumes run: "probe d es i h inc = Some (Inr (off, d'))"
  shows "grows d d'"
proof -
  have "\<forall>off d'. y = Inr (off, d') \<longrightarrow> grows d d'" if "probe d es i h inc = Some y" for y
  proof (rule probe.raw_induct
      [where P = "\<lambda>d es i h inc y. \<forall>off d'. y = Inr (off, d') \<longrightarrow> grows d d'", OF _ that],
      goal_cases)
    case (1 probe' d es i h inc y)
    show ?case
      using 1(2) 1(1) [of d es i "hash_modulo_increment h inc" "hash_modulo_increment inc 8" y]
      by (auto simp: grows_def split: if_splits option.splits)
  qed
  with run show ?thesis by blast
qed

lemma insertEdges_grows: "insertEdges d es = Some (Inr (off, d')) \<Longrightarrow> grows d d'"
  unfolding insertEdges_def by (rule probe_grows)

lemma unwind_grows:
  "unwind d edges idx p = Some (Inr (d', edges', idx')) \<Longrightarrow> grows d d'"
proof (induction d edges idx p rule: unwind.induct)
  case (1 d edges idx p)
  show ?case
  proof (cases "p < idx")
    case False
    with "1.prems" show ?thesis by (subst (asm) unwind.simps) simp
  next
    case True
    note u = "1.prems" [unfolded unwind.simps [of d edges idx p]]
    show ?thesis
    proof (cases edges)
      case Nil
      with u True show ?thesis by simp
    next
      case (Cons ready popped)
      show ?thesis
      proof (cases "ready = []")
        case True
        with u \<open>p < idx\<close> Cons "1.IH"(2) [OF \<open>p < idx\<close> Cons] show ?thesis by simp
      next
        case False
        with u \<open>p < idx\<close> Cons obtain offset d1 tp below where
          ins: "insertEdges d (on_last setEndOfNode ready) = Some (Inr (offset, d1))"
          and pop: "popped = tp # below" "tp \<noteq> []"
          and rec: "unwind d1 (on_last (\<lambda>n. setChildOffset n (of_nat offset)) tp # below)
                      (idx - 1) p = Some (Inr (d', edges', idx'))"
          by (auto split: option.splits sum.splits list.splits if_splits)
        from "1.IH"(1) [OF \<open>p < idx\<close> Cons False ins refl refl pop(1) pop(2) rec]
        have "grows d1 d'" by simp
        with insertEdges_grows [OF ins] show ?thesis by (rule grows_trans)
      qed
    qed
  qed
qed

lemma parse_loop_grows:
  "parse_loop pf wb d edges idx = Some (Inr (d', edges')) \<Longrightarrow> grows d d'"
proof (induction pf wb d edges idx rule: parse_loop.induct)
  case (1 pf wb d edges idx)
  note run = "1.prems" [unfolded parse_loop.simps [of pf wb d edges idx]]
  from run obtain p w wb' where nx: "WordBuffer_next pf wb = Inr ((p, w), wb')"
    by (auto split: sum.splits)
  with run have le: "\<not> idx < p" by (auto split: if_splits)
  with run nx obtain d1 edges1 idx1 where
    un: "unwind d edges idx p = Some (Inr (d1, edges1, idx1))"
    by (auto split: option.splits sum.splits)
  have g1: "grows d d1" by (rule unwind_grows [OF un])
  show ?case
  proof (cases "w = []")
    case True
    with run nx le un have "d' = d1" by (auto split: if_splits)
    with g1 show ?thesis by simp
  next
    case False
    with run nx le un obtain edges2 idx2 where
      ex: "extend edges1 idx1 w = Inr (edges2, idx2)"
      and rec: "parse_loop pf wb' d1 edges2 idx2 = Some (Inr (d', edges'))"
      by (auto split: sum.splits)
    from "1.IH" [OF nx refl refl le un refl refl refl False ex refl rec]
    have "grows d1 d'" .
    with g1 show ?thesis by (rule grows_trans)
  qed
qed

lemma finalise_frame:
  assumes "finalise d edges = Inr d'"
  shows "\<exists>root. length root = MAX_CHARS \<and> dawg d' = root @ drop MAX_CHARS (dawg d)
           \<and> hash_table d' = hash_table d \<and> length (dawg d') = length (dawg d)"
proof -
  from assms obtain root below where e: "edges = root # below"
    by (auto simp: finalise_def split: list.splits)
  define root1 where "root1 = (if root \<noteq> [] then on_last setEndOfNode root else root)"
  define root2 where "root2 = take MAX_CHARS root1 @ replicate (MAX_CHARS - length root1) 0"
  have l2: "length root2 = MAX_CHARS" by (simp add: root2_def)
  then have "root2 \<noteq> []" by (auto simp: MAX_CHARS_def)
  then have l3: "length (on_last setEndOfNode root2) = MAX_CHARS"
    using l2 by (simp add: on_last_def MAX_CHARS_def)
  from assms e have big: "MAX_CHARS \<le> length (dawg d)"
    and d': "d' = d\<lparr>dawg := on_last setEndOfNode root2 @ drop MAX_CHARS (dawg d)\<rparr>"
    by (auto simp: finalise_def Let_def root1_def root2_def split: if_splits)
  show ?thesis
    using l3 big by (intro exI [of _ "on_last setEndOfNode root2"]) (simp add: d')
qed

lemma on_last_update:
  "xs \<noteq> [] \<Longrightarrow> on_last f xs = xs[length xs - 1 := f (xs ! (length xs - 1))]"
  by (cases xs rule: rev_cases) (simp_all add: on_last_def)

lemma finalise_root:
  assumes "finalise d edges = Inr d'"
  shows "edges \<noteq> [] \<and> take 256 (dawg d') = padded_root (hd edges)"
proof -
  from assms obtain root below where e: "edges = root # below"
    by (auto simp: finalise_def split: list.splits)
  define root1 where "root1 = (if root \<noteq> [] then on_last setEndOfNode root else root)"
  define root2 where "root2 = take MAX_CHARS root1 @ replicate (MAX_CHARS - length root1) 0"
  have l2: "length root2 = 256" by (simp add: root2_def MAX_CHARS_def)
  then have ne: "root2 \<noteq> []" by auto
  from assms e have d': "d' = d\<lparr>dawg := on_last setEndOfNode root2 @ drop MAX_CHARS (dawg d)\<rparr>"
    by (auto simp: finalise_def Let_def root1_def root2_def split: if_splits)
  have r3: "on_last setEndOfNode root2 = root2[255 := root2 ! 255 OR 0x00400000]"
    using on_last_update [OF ne, of setEndOfNode] l2
    by (simp add: setEndOfNode_def end_of_node_def)
  have r1: "root1 = (if root = [] then [] else butlast root @ [last root OR 0x00400000])"
    by (simp add: root1_def on_last_def setEndOfNode_def end_of_node_def)
  have "take 256 (dawg d') = on_last setEndOfNode root2"
    using l2 by (simp add: d' r3)
  moreover have "padded_root root = root2[255 := root2 ! 255 OR 0x00400000]"
    unfolding padded_root_def Let_def r1 [symmetric] root2_def MAX_CHARS_def ..
  ultimately show ?thesis using e r3 by simp
qed

lemma probe_frame:
  assumes run: "probe d es i h inc = Some (Inr (off, d'))"
  shows "d' = d \<or> (\<exists>s. hash_table d s = 0
           \<and> d' = d\<lparr>dawg := dawg d @ es, hash_table := (hash_table d)(s := length (dawg d))\<rparr>)"
proof -
  have "\<forall>off d'. y = Inr (off, d') \<longrightarrow> d' = d \<or> (\<exists>s. hash_table d s = 0
           \<and> d' = d\<lparr>dawg := dawg d @ es, hash_table := (hash_table d)(s := length (dawg d))\<rparr>)"
    if "probe d es i h inc = Some y" for y
  proof (rule probe.raw_induct
      [where P = "\<lambda>d es i h inc y. \<forall>off d'. y = Inr (off, d') \<longrightarrow> d' = d \<or> (\<exists>s. hash_table d s = 0
           \<and> d' = d\<lparr>dawg := dawg d @ es, hash_table := (hash_table d)(s := length (dawg d))\<rparr>)",
        OF _ that], goal_cases)
    case (1 probe' d es i h inc y)
    show ?case
      using 1(2) 1(1) [of d es i "hash_modulo_increment h inc" "hash_modulo_increment inc 8" y]
      by (auto split: if_splits option.splits)
  qed
  with run show ?thesis by blast
qed

section \<open>Where an edge list is interned\<close>

lemma equal_True_located: "equal es arena j = Some True \<Longrightarrow> located arena j es"
proof (induction es arbitrary: j)
  case Nil
  then show ?case by (simp add: located_def)
next
  case (Cons e es)
  from Cons.prems have j: "j < length arena" and e: "e = arena ! j"
    and r: "equal es arena (Suc j) = Some True"
    by (auto split: if_splits)
  from Cons.IH [OF r] have "located arena (Suc j) es" .
  then show ?case
    using j e by (simp add: located_def Cons_nth_drop_Suc [symmetric])
qed

lemma located_bound: "located arena j es \<Longrightarrow> length es \<le> length arena - j"
proof -
  assume "located arena j es"
  then have "length (take (length es) (drop j arena)) = length es"
    by (simp add: located_def)
  then show ?thesis by simp
qed

lemma located_nth:
  assumes "located arena j es" "k < length es"
  shows "es ! k = arena ! (j + k)" "j + k < length arena"
proof -
  from located_bound [OF assms(1)] assms(2) show b: "j + k < length arena" by simp
  have "es ! k = take (length es) (drop j arena) ! k"
    using assms(1) by (simp add: located_def)
  also have "\<dots> = arena ! (j + k)"
    using assms(2) b by simp
  finally show "es ! k = arena ! (j + k)" .
qed

lemma located_equal: "located arena j es \<Longrightarrow> equal es arena j = Some True"
proof (induction es arbitrary: j)
  case Nil
  show ?case by simp
next
  case (Cons e es)
  from located_nth [OF Cons.prems, of 0] have j: "j < length arena" and e: "e = arena ! j"
    by simp_all
  from Cons.prems j have "take (length es) (drop (Suc j) arena) = es"
    by (simp add: located_def Cons_nth_drop_Suc [symmetric])
  then have "located arena (Suc j) es" by (simp add: located_def)
  from Cons.IH [OF this] j e show ?case by simp
qed

lemma equal_append: "equal es arena j = Some b \<Longrightarrow> equal es (arena @ ext) j = Some b"
  by (induction es arbitrary: j) (auto simp: nth_append split: if_splits)

lemma equal_prefix: "equal es arena j = Some b \<Longrightarrow> prefix arena arena' \<Longrightarrow> equal es arena' j = Some b"
  by (auto simp: prefix_def equal_append)

lemma located_append: "located arena j es \<Longrightarrow> located (arena @ ext) j es"
  using located_bound [of arena j es] by (auto simp: located_def)

lemma located_prefix: "located arena j es \<Longrightarrow> prefix arena arena' \<Longrightarrow> located arena' j es"
  by (auto simp: prefix_def located_append)

lemma located_end: "located (arena @ es) (length arena) es"
  by (simp add: located_def)

lemma located_unique:
  assumes "located arena j es" "located arena j fs" "one_group es" "one_group fs"
  shows "es = fs"
proof -
  have eq: "es ! k = fs ! k" if "k < length es" "k < length fs" for k
    using located_nth(1) [OF assms(1) that(1)] located_nth(1) [OF assms(2) that(2)] by simp
  have no: False if lt: "length xs < length ys" and g: "one_group xs" "one_group ys"
    and e: "\<And>k. k < length xs \<Longrightarrow> k < length ys \<Longrightarrow> xs ! k = ys ! k" for xs ys :: EdgeList
  proof -
    from g have ne: "xs \<noteq> []" by (simp add: one_group_def)
    let ?k = "length xs - 1"
    have k: "?k < length xs" using ne by simp
    have "isEndOfNode (xs ! ?k)" using g(1) ne by (simp add: one_group_def last_conv_nth)
    moreover have "xs ! ?k = ys ! ?k" using k lt by (intro e) simp_all
    moreover have "ys ! ?k \<in> set (butlast ys)"
    proof -
      have kb: "?k < length (butlast ys)" using lt ne by (cases xs) simp_all
      then have "butlast ys ! ?k \<in> set (butlast ys)" by (rule nth_mem)
      moreover have "butlast ys ! ?k = ys ! ?k" using kb by (rule nth_butlast)
      ultimately show ?thesis by simp
    qed
    ultimately show False using g(2) by (auto simp: one_group_def)
  qed
  have "length es = length fs"
  proof (rule ccontr)
    assume "length es \<noteq> length fs"
    then consider "length es < length fs" | "length fs < length es" by linarith
    then show False
    proof cases
      case 1
      from no [OF 1 assms(3,4)] eq show False by blast
    next
      case 2
      from no [OF 2 assms(4,3)] eq show False by (metis)
    qed
  qed
  with eq show ?thesis by (simp add: list_eq_iff_nth_eq)
qed

lemma probe_located:
  assumes run: "probe d es i h inc = Some (Inr (off, d'))"
  shows "1 \<le> off \<and> located (dawg d') (off - 1) es"
proof -
  have "\<forall>off d'. y = Inr (off, d') \<longrightarrow> 1 \<le> off \<and> located (dawg d') (off - 1) es"
    if "probe d es i h inc = Some y" for y
  proof (rule probe.raw_induct
      [where P = "\<lambda>d es i h inc y. \<forall>off d'. y = Inr (off, d')
                    \<longrightarrow> 1 \<le> off \<and> located (dawg d') (off - 1) es", OF _ that], goal_cases)
    case (1 probe' d es i h inc y)
    show ?case
      using 1(2) 1(1) [of d es i "hash_modulo_increment h inc" "hash_modulo_increment inc 8" y]
      by (auto simp: located_end equal_True_located split: if_splits option.splits)
  qed
  with run show ?thesis by blast
qed

lemma probe_stable:
  assumes run: "probe d es i h inc = Some (Inr (off, d'))"
    and ne: "dawg d \<noteq> []" and g: "grows d' d2"
  shows "probe d2 es i h inc = Some (Inr (off, d2))"
proof -
  have "dawg d \<noteq> [] \<longrightarrow> (\<forall>off d'. y = Inr (off, d') \<longrightarrow>
          grows d d' \<and> (\<forall>d2. grows d' d2 \<longrightarrow> probe d2 es i h inc = Some (Inr (off, d2))))"
    if "probe d es i h inc = Some y" for y
  proof (rule probe.raw_induct
      [where P = "\<lambda>d es i h inc y. dawg d \<noteq> [] \<longrightarrow> (\<forall>off d'. y = Inr (off, d') \<longrightarrow>
          grows d d' \<and> (\<forall>d2. grows d' d2 \<longrightarrow> probe d2 es i h inc = Some (Inr (off, d2))))",
        OF _ that], goal_cases)
    case (1 probe' d es i h inc y)
    show ?case
    proof (intro impI allI)
      fix off d'
      assume ne: "dawg d \<noteq> []" and y: "y = Inr (off, d')"
      show "grows d d' \<and> (\<forall>d2. grows d' d2 \<longrightarrow> probe d2 es i h inc = Some (Inr (off, d2)))"
      proof (cases "hash_table d h = 0")
        case True
        with 1(2) y have off: "off = length (dawg d) + 1"
          and d': "d' = d\<lparr>dawg := dawg d @ es,
                         hash_table := (hash_table d)(h := length (dawg d))\<rparr>"
          by simp_all
        have g: "grows d d'" using True by (simp add: d' grows_def)
        have "probe d2 es i h inc = Some (Inr (off, d2))" if g2: "grows d' d2" for d2
        proof -
          have occ: "hash_table d' h \<noteq> 0" using ne by (simp add: d')
          with g2 have s: "hash_table d2 h = length (dawg d)" by (simp add: grows_def d')
          have "located (dawg d') (length (dawg d)) es" by (simp add: d' located_end)
          with g2 have "located (dawg d2) (length (dawg d)) es"
            by (auto simp: grows_def intro: located_prefix)
          then have "equal es (dawg d2) (length (dawg d)) = Some True" by (rule located_equal)
          then show ?thesis using s ne by (subst probe.simps) (simp add: off)
        qed
        with g show ?thesis by blast
      next
        case False
        then obtain b where eq: "equal es (dawg d) (hash_table d h) = Some b"
          using 1(2) y by (auto split: option.splits)
        show ?thesis
        proof (cases b)
          case True
          with 1(2) y False eq have off: "off = hash_table d h + 1" and d': "d' = d" by auto
          have "probe d2 es i h inc = Some (Inr (off, d2))" if g2: "grows d d2" for d2
          proof -
            from g2 False have s: "hash_table d2 h = hash_table d h" by (simp add: grows_def)
            from g2 eq have "equal es (dawg d2) (hash_table d h) = Some b"
              by (auto simp: grows_def intro: equal_prefix)
            then show ?thesis using s False True by (subst probe.simps) (simp add: off)
          qed
          then show ?thesis by (simp add: d')
        next
          case nb: False
          with 1(2) y \<open>hash_table d h \<noteq> 0\<close> eq
          have nw: "hash_modulo_increment h inc \<noteq> i"
            and rec: "probe' d es i (hash_modulo_increment h inc) (hash_modulo_increment inc 8)
                      = Some y"
            by (auto split: if_splits)
          from 1(1) [OF rec] ne y have g: "grows d d'"
            and st: "\<And>d2. grows d' d2 \<Longrightarrow> probe d2 es i (hash_modulo_increment h inc)
                        (hash_modulo_increment inc 8) = Some (Inr (off, d2))"
            by blast+
          have "probe d2 es i h inc = Some (Inr (off, d2))" if g2: "grows d' d2" for d2
          proof -
            from g g2 have gd: "grows d d2" by (rule grows_trans)
            with \<open>hash_table d h \<noteq> 0\<close> have s: "hash_table d2 h = hash_table d h"
              by (simp add: grows_def)
            from gd eq have "equal es (dawg d2) (hash_table d h) = Some b"
              by (auto simp: grows_def intro: equal_prefix)
            then show ?thesis
              using s \<open>hash_table d h \<noteq> 0\<close> nb nw st [OF g2] by (subst probe.simps) simp
          qed
          with g show ?thesis by blast
        qed
      qed
    qed
  qed
  with run ne g show ?thesis by blast
qed

lemma grows_nonempty: "grows d d' \<Longrightarrow> dawg d \<noteq> [] \<Longrightarrow> dawg d' \<noteq> []"
  by (auto simp: grows_def)

lemma intern_all_results:
  assumes "intern_all d0 ess = Some (Inr (offs, d))" "dawg d0 \<noteq> []"
  shows "length offs = length ess \<and> grows d0 d
         \<and> (\<forall>i < length ess. 1 \<le> offs ! i \<and> located (dawg d) (offs ! i - 1) (ess ! i)
               \<and> insertEdges d (ess ! i) = Some (Inr (offs ! i, d)))"
  using assms
proof (induction ess arbitrary: d0 offs)
  case Nil
  then show ?case by simp
next
  case (Cons es ess)
  from Cons.prems(1) obtain off d1 offs' where
    ins: "insertEdges d0 es = Some (Inr (off, d1))"
    and rest: "intern_all d1 ess = Some (Inr (offs', d))"
    and offs: "offs = off # offs'"
    by (auto split: option.splits sum.splits)
  have g1: "grows d0 d1" by (rule insertEdges_grows [OF ins])
  then have ne1: "dawg d1 \<noteq> []" using Cons.prems(2) by (rule grows_nonempty)
  from Cons.IH [OF rest ne1] have len: "length offs' = length ess" and g2: "grows d1 d"
    and all: "\<forall>i < length ess. 1 \<le> offs' ! i \<and> located (dawg d) (offs' ! i - 1) (ess ! i)
               \<and> insertEdges d (ess ! i) = Some (Inr (offs' ! i, d))"
    by blast+
  from probe_located [OF ins [unfolded insertEdges_def]]
  have o1: "1 \<le> off" and l1: "located (dawg d1) (off - 1) es" by blast+
  from l1 g2 have l: "located (dawg d) (off - 1) es"
    by (auto simp: grows_def intro: located_prefix)
  have st: "insertEdges d es = Some (Inr (off, d))"
    unfolding insertEdges_def
    by (rule probe_stable [OF ins [unfolded insertEdges_def] Cons.prems(2) g2])
  have "1 \<le> (off # offs') ! i \<and> located (dawg d) ((off # offs') ! i - 1) ((es # ess) ! i)
        \<and> insertEdges d ((es # ess) ! i) = Some (Inr ((off # offs') ! i, d))"
    if "i < length (es # ess)" for i
    using that o1 l st all by (cases i) simp_all
  then show ?case
    using len grows_trans [OF g1 g2] by (simp add: offs)
qed

section \<open>The builder keeps the words it has read\<close>

subsection \<open>Fields under the two setters\<close>

lemma setEndOfNode_fields [simp]:
  "getOffset (setEndOfNode n) = getOffset n"
  "getChar (setEndOfNode n) = getChar n"
  "isEndOfWord (setEndOfNode n) = isEndOfWord n"
  "isEndOfNode (setEndOfNode n)"
  by (rule bit_word_eqI, auto simp: node_defs node_bits isEndOfWord_alt isEndOfNode_alt)+

lemma setChildOffset_fields [simp]:
  "getChar (setChildOffset n off) = getChar n"
  "isEndOfWord (setChildOffset n off) = isEndOfWord n"
  "isEndOfNode (setChildOffset n off) = isEndOfNode n"
  by (rule bit_word_eqI, auto simp: node_defs node_bits isEndOfWord_alt isEndOfNode_alt)+

lemma getOffset_setChildOffset_fresh:
  assumes "getOffset n = 0" "off < 2 ^ 21"
  shows "unat (getOffset (setChildOffset n (of_nat off))) = off"
proof -
  have "unat (getOffset (setChildOffset n (of_nat off))) = unat (of_nat off :: u32) mod 2 ^ 21"
    using assms(1) by (simp add: getOffset_setChildOffset unat_and_offset_mask)
  also have "unat (of_nat off :: u32) = off"
    using assms(2) by (simp add: unat_of_nat)
  finally show ?thesis using assms(2) by simp
qed

lemma edge_words_setEndOfNode [simp]: "edge_words (setEndOfNode n) cw = edge_words n cw"
  by (simp add: edge_words_def)

lemma edge_words_setChildOffset [simp]: "edge_words (setChildOffset n off) cw = edge_words n cw"
  by (simp add: edge_words_def)

lemma child_sem_setEndOfNode [simp]:
  "child_sem lo arena (setEndOfNode n) cw = child_sem lo arena n cw"
  by (simp add: child_sem_def)

subsection \<open>The semantics looks at the arena from \<open>lo\<close> on only\<close>

lemma same_from_prefix: "prefix arena arena' \<Longrightarrow> same_from lo arena arena'"
  by (auto simp: same_from_def prefix_def nth_append)

lemma group_sem_frame:
  assumes "group_sem lo arena j ws" and sf: "same_from lo arena arena'"
  shows "group_sem lo arena' j ws"
  using assms(1)
proof (induction rule: group_sem.induct)
  case (last_leaf j)
  with sf have "j < length arena' \<and> arena' ! j = arena ! j" by (simp add: same_from_def)
  with last_leaf show ?case by (metis group_sem.last_leaf)
next
  case (last_child j cw)
  with sf have "j < length arena' \<and> arena' ! j = arena ! j" by (simp add: same_from_def)
  with last_child show ?case by (metis group_sem.last_child)
next
  case (more_leaf j ws)
  with sf have "j < length arena' \<and> arena' ! j = arena ! j" by (simp add: same_from_def)
  with more_leaf show ?case by (metis group_sem.more_leaf)
next
  case (more_child j cw ws)
  with sf have "j < length arena' \<and> arena' ! j = arena ! j" by (simp add: same_from_def)
  with more_child show ?case by (metis group_sem.more_child)
qed

lemma group_sem_lower:
  assumes "group_sem lo arena j ws" "lo' \<le> lo"
  shows "group_sem lo' arena j ws"
  using assms(1)
proof (induction rule: group_sem.induct)
  case (last_leaf j)
  with assms(2) show ?case by (intro group_sem.last_leaf) simp_all
next
  case (last_child j cw)
  with assms(2) show ?case by (intro group_sem.last_child) simp_all
next
  case (more_leaf j ws)
  with assms(2) show ?case by (intro group_sem.more_leaf) simp_all
next
  case (more_child j cw ws)
  with assms(2) show ?case by (intro group_sem.more_child) simp_all
qed

lemma child_sem_frame:
  "child_sem lo arena n cw \<Longrightarrow> same_from lo arena arena' \<Longrightarrow> child_sem lo arena' n cw"
  by (auto simp: child_sem_def intro: group_sem_frame split: if_splits)

lemma nodes_sem_frame:
  "nodes_sem lo arena ns ws \<Longrightarrow> same_from lo arena arena' \<Longrightarrow> nodes_sem lo arena' ns ws"
proof (induction ns arbitrary: ws)
  case Nil
  then show ?case by simp
next
  case (Cons n ns)
  then show ?case by (auto intro: child_sem_frame)
qed

lemma stack_sem_frame:
  "stack_sem lo arena st pw W \<Longrightarrow> same_from lo arena arena' \<Longrightarrow> stack_sem lo arena' st pw W"
proof (induction st arbitrary: pw)
  case Nil
  then show ?case by simp
next
  case (Cons e below)
  show ?case
  proof (cases "e = []")
    case True
    with Cons show ?thesis by simp
  next
    case False
    with Cons.prems obtain ws cw where
      "nodes_sem lo arena (butlast e) ws" "child_sem lo arena (last e) cw"
      "stack_sem lo arena below (ws @ edge_words (last e) (cw @ pw)) W"
      by auto
    with False Cons.prems(2) Cons.IH show ?thesis
      by (auto intro: nodes_sem_frame child_sem_frame)
  qed
qed

lemma nodes_sem_append:
  "nodes_sem lo arena (as @ bs) ws \<longleftrightarrow>
     (\<exists>w1 w2. nodes_sem lo arena as w1 \<and> nodes_sem lo arena bs w2 \<and> ws = w1 @ w2)"
proof (induction as arbitrary: ws)
  case Nil
  show ?case by simp
next
  case (Cons a as)
  show ?case
  proof
    assume "nodes_sem lo arena ((a # as) @ bs) ws"
    then obtain cw ws' where c: "child_sem lo arena a cw"
      and r: "nodes_sem lo arena (as @ bs) ws'" and w: "ws = edge_words a cw @ ws'"
      by auto
    from r Cons.IH obtain w1 w2 where "nodes_sem lo arena as w1" "nodes_sem lo arena bs w2"
      "ws' = w1 @ w2" by blast
    with c w have "nodes_sem lo arena (a # as) (edge_words a cw @ w1)
        \<and> nodes_sem lo arena bs w2 \<and> ws = (edge_words a cw @ w1) @ w2"
      by auto
    then show "\<exists>w1 w2. nodes_sem lo arena (a # as) w1 \<and> nodes_sem lo arena bs w2 \<and> ws = w1 @ w2"
      by blast
  next
    assume "\<exists>w1 w2. nodes_sem lo arena (a # as) w1 \<and> nodes_sem lo arena bs w2 \<and> ws = w1 @ w2"
    then obtain w1 w2 cw w1' where c: "child_sem lo arena a cw"
      and a: "nodes_sem lo arena as w1'" and w1: "w1 = edge_words a cw @ w1'"
      and b: "nodes_sem lo arena bs w2" and w: "ws = w1 @ w2"
      by auto
    from a b Cons.IH have "nodes_sem lo arena (as @ bs) (w1' @ w2)" by blast
    with c w w1 show "nodes_sem lo arena ((a # as) @ bs) ws" by auto
  qed
qed

lemma nodes_sem_single:
  "nodes_sem lo arena [n] ws \<longleftrightarrow> (\<exists>cw. child_sem lo arena n cw \<and> ws = edge_words n cw)"
  by auto

lemma on_last_Cons2: "on_last f (a # b # bs) = a # on_last f (b # bs)"
  by (simp add: on_last_def)

lemma on_last_single: "on_last f [a] = [f a]"
  by (simp add: on_last_def)

lemma located_Cons:
  "located arena j (e # es) \<longleftrightarrow> j < length arena \<and> arena ! j = e \<and> located arena (Suc j) es"
proof
  assume l: "located arena j (e # es)"
  from located_nth [OF l, of 0] have j: "j < length arena" "arena ! j = e" by simp_all
  with l show "j < length arena \<and> arena ! j = e \<and> located arena (Suc j) es"
    by (simp add: located_def Cons_nth_drop_Suc [symmetric])
next
  assume "j < length arena \<and> arena ! j = e \<and> located arena (Suc j) es"
  then show "located arena j (e # es)"
    by (auto simp: located_def Cons_nth_drop_Suc [symmetric])
qed

lemma group_of_nodes:
  assumes "located arena j (on_last setEndOfNode es)" "es \<noteq> []"
    "\<forall>n \<in> set es. \<not> isEndOfNode n" "lo \<le> j" "nodes_sem lo arena es ws"
  shows "group_sem lo arena j ws"
  using assms
proof (induction es arbitrary: j ws)
  case Nil
  then show ?case by simp
next
  case (Cons n ns)
  from Cons.prems(5) obtain cw ws' where cs: "child_sem lo arena n cw"
    and ns: "nodes_sem lo arena ns ws'" and ws: "ws = edge_words n cw @ ws'"
    by auto
  show ?case
  proof (cases ns)
    case Nil
    with Cons.prems(1) have j: "j < length arena" and a: "arena ! j = setEndOfNode n"
      by (simp_all add: on_last_single located_Cons)
    from ns Nil have w': "ws' = []" by simp
    show ?thesis
    proof (cases "getOffset n = 0")
      case True
      with cs have "cw = []" by (simp add: child_sem_def)
      moreover have "group_sem lo arena j (edge_words (arena ! j) [])"
        using Cons.prems(4) j a True by (intro group_sem.last_leaf) simp_all
      ultimately show ?thesis by (simp add: ws w' a)
    next
      case False
      with cs have "group_sem lo arena (unat (getOffset n) - 1) cw" by (simp add: child_sem_def)
      then have "group_sem lo arena j (edge_words (arena ! j) cw)"
        using Cons.prems(4) j a False by (intro group_sem.last_child) simp_all
      then show ?thesis by (simp add: ws w' a)
    qed
  next
    case (Cons m ms)
    with Cons.prems(1) have j: "j < length arena" and a: "arena ! j = n"
      and l: "located arena (Suc j) (on_last setEndOfNode ns)"
      by (simp_all add: on_last_Cons2 located_Cons)
    have ne: "\<not> isEndOfNode n" using Cons.prems(3) by simp
    have "group_sem lo arena (Suc j) ws'"
      using l Cons Cons.prems(3,4) ns by (intro Cons.IH) simp_all
    then have g: "group_sem lo arena (Suc j) ws'" .
    show ?thesis
    proof (cases "getOffset n = 0")
      case True
      with cs have "cw = []" by (simp add: child_sem_def)
      moreover have "group_sem lo arena j (edge_words (arena ! j) [] @ ws')"
        using Cons.prems(4) j a True ne g by (intro group_sem.more_leaf) simp_all
      ultimately show ?thesis by (simp add: ws a)
    next
      case False
      with cs have "group_sem lo arena (unat (getOffset n) - 1) cw" by (simp add: child_sem_def)
      then have "group_sem lo arena j (edge_words (arena ! j) cw @ ws')"
        using Cons.prems(4) j a False ne g by (intro group_sem.more_child) simp_all
      then show ?thesis by (simp add: ws a)
    qed
  qed
qed

lemma edge_words_snoc: "edge_words n (cw @ [v]) = edge_words n cw @ [getChar n # v]"
  by (simp add: edge_words_def)

lemma stack_sem_push_word:
  assumes "stack_sem lo arena st pw W" "\<forall>e \<in> set st. e \<noteq> []"
  shows "stack_sem lo arena st (pw @ [v]) (W @ [spine_of st @ v])"
  using assms
proof (induction st arbitrary: pw v)
  case Nil
  then show ?case by (simp add: spine_of_def)
next
  case (Cons e below)
  then have ne: "e \<noteq> []" and nb: "\<forall>e \<in> set below. e \<noteq> []" by simp_all
  from Cons.prems(1) ne obtain ws cw where
    n: "nodes_sem lo arena (butlast e) ws" and c: "child_sem lo arena (last e) cw"
    and s: "stack_sem lo arena below (ws @ edge_words (last e) (cw @ pw)) W"
    by auto
  from Cons.IH [OF s nb, of "getChar (last e) # v"]
  have "stack_sem lo arena below (ws @ edge_words (last e) (cw @ pw @ [v]))
          (W @ [spine_of below @ getChar (last e) # v])"
    by (simp add: edge_words_snoc [of _ "cw @ pw", simplified])
  with n c ne show ?case
    by (auto simp: spine_of_def)
qed

lemma stack_sem_top:
  assumes "stack_sem lo arena (tp # below) [] W"
  shows "\<exists>ws. nodes_sem lo arena tp ws \<and> stack_sem lo arena below ws W"
proof (cases "tp = []")
  case True
  with assms show ?thesis by simp
next
  case False
  with assms obtain ws cw where
    n: "nodes_sem lo arena (butlast tp) ws" and c: "child_sem lo arena (last tp) cw"
    and s: "stack_sem lo arena below (ws @ edge_words (last tp) cw) W"
    by auto
  have "nodes_sem lo arena (butlast tp @ [last tp]) (ws @ edge_words (last tp) cw)"
    using n c by (subst nodes_sem_append) auto
  with False s show ?thesis by auto
qed

lemma one_group_Cons:
  "one_group (e # es) \<Longrightarrow> es \<noteq> [] \<Longrightarrow> one_group es \<and> \<not> isEndOfNode e"
  by (auto simp: one_group_def)

lemma one_group_single_last: "one_group (e # es) \<Longrightarrow> isEndOfNode e \<Longrightarrow> es = []"
  by (cases es) (auto simp: one_group_def)

lemma equal_defined:
  assumes "one_group es" "one_group g" "located arena j g"
  shows "\<exists>b. equal es arena j = Some b"
  using assms
proof (induction es arbitrary: g j)
  case Nil
  show ?case by (intro exI [of _ True]) simp
next
  case (Cons e es)
  from Cons.prems(2) obtain x g' where g: "g = x # g'"
    by (cases g) (auto simp: one_group_def)
  with Cons.prems(3) have j: "j < length arena" and a: "arena ! j = x"
    and l: "located arena (Suc j) g'"
    by (simp_all add: located_Cons)
  show ?case
  proof (cases "e = x")
    case False
    with j a have "equal (e # es) arena j = Some False" by simp
    then show ?thesis by blast
  next
    case True
    show ?thesis
    proof (cases "es = []")
      case True
      with \<open>e = x\<close> j a have "equal (e # es) arena j = Some True" by simp
      then show ?thesis by blast
    next
      case False
      from one_group_Cons [OF Cons.prems(1) False] have ge: "one_group es" and ne: "\<not> isEndOfNode e"
        by simp_all
      have "g' \<noteq> []"
        using Cons.prems(2) g ne \<open>e = x\<close> by (auto simp: one_group_def)
      from one_group_Cons [OF Cons.prems(2) [unfolded g] this] have "one_group g'" by simp
      from Cons.IH [OF ge this l] \<open>e = x\<close> j a show ?thesis by simp
    qed
  qed
qed

subsection \<open>The probing loop always ends\<close>

lemma hmi_mod:
  "a < 240007 \<Longrightarrow> b < 240007 \<Longrightarrow> hash_modulo_increment a b = (a + b) mod 240007"
  by (simp add: hash_modulo_increment_def HASH_TABLE_SIZE_def mod_if)

lemma probe_ends_aux:
  assumes h: "h < 240007"
  shows "n + m = 180004 \<Longrightarrow> 1 \<le> m
         \<Longrightarrow> \<exists>r. probe d es h ((h + 4 * n * n + 5 * n) mod 240007) ((9 + 8 * n) mod 240007) = Some r"
proof (induction m arbitrary: n)
  case 0
  then show ?case by simp
next
  case (Suc m)
  let ?s = "\<lambda>n. (h + 4 * n * n + 5 * n) mod 240007"
  let ?i = "\<lambda>n. (9 + 8 * n) mod 240007"
  have s: "hash_modulo_increment (?s n) (?i n) = ?s (Suc n)"
  proof -
    have "hash_modulo_increment (?s n) (?i n) = (?s n + ?i n) mod 240007"
      by (rule hmi_mod) simp_all
    also have "\<dots> = ((h + 4 * n * n + 5 * n) + (9 + 8 * n)) mod 240007"
      by (simp add: mod_add_eq)
    also have "(h + 4 * n * n + 5 * n) + (9 + 8 * n) = h + 4 * Suc n * Suc n + 5 * Suc n"
      by (simp add: algebra_simps)
    finally show ?thesis .
  qed
  have i: "hash_modulo_increment (?i n) 8 = ?i (Suc n)"
  proof -
    have "hash_modulo_increment (?i n) 8 = (?i n + 8) mod 240007"
      by (rule hmi_mod) simp_all
    also have "\<dots> = ((9 + 8 * n) + 8) mod 240007"
      by (simp add: mod_add_left_eq)
    also have "(9 + 8 * n) + 8 = 9 + 8 * Suc n" by simp
    finally show ?thesis .
  qed
  show ?case
  proof (cases "m = 0")
    case True
    with Suc.prems have n: "Suc n = 180004" by simp
    have "(4::nat) * 180004 * 180004 + 5 * 180004 = 240007 * 540012" by simp
    then have "?s (Suc n) = (h + 240007 * 540012) mod 240007"
      unfolding n by (simp only: add.assoc)
    also have "\<dots> = h mod 240007" by (rule mod_mult_self2)
    also have "\<dots> = h" using h by (rule mod_less)
    finally have wrap: "?s (Suc n) = h" .
    show ?thesis
      by (subst probe.simps) (simp only: s i wrap, simp split: option.splits)
  next
    case False
    with Suc.prems have "Suc n + m = 180004" "1 \<le> m" by simp_all
    from Suc.IH [OF this] obtain r where
      r: "probe d es h (?s (Suc n)) (?i (Suc n)) = Some r" by blast
    show ?thesis
      by (subst probe.simps) (simp only: s i r, simp split: option.splits)
  qed
qed

lemma insertEdges_ends: "\<exists>r. insertEdges d es = Some r"
proof -
  have h: "hash es < 240007" by (simp add: hash_def HASH_TABLE_SIZE_def)
  from probe_ends_aux [OF h, of 0 180004 d es] h show ?thesis
    by (simp add: insertEdges_def)
qed

lemma tbl_ok_insert:
  assumes ok: "tbl_ok d" and g: "one_group es" and e: "hash_table d h = 0"
  shows "tbl_ok (d\<lparr>dawg := dawg d @ es, hash_table := (hash_table d)(h := length (dawg d))\<rparr>)"
    (is "tbl_ok ?d'")
proof -
  have len: "256 \<le> length (dawg d)" using ok by (simp add: tbl_ok_def)
  then have len': "256 \<le> length (dawg ?d')" by simp
  have slots: "256 \<le> hash_table ?d' s
               \<and> (\<exists>g. one_group g \<and> located (dawg ?d') (hash_table ?d' s) g)"
    if occ: "hash_table ?d' s \<noteq> 0" for s
  proof (cases "s = h")
    case True
    have "located (dawg d @ es) (length (dawg d)) es" by (rule located_end)
    with True g len show ?thesis by auto
  next
    case False
    with occ have o: "hash_table d s \<noteq> 0" by simp
    with ok obtain g' where big: "256 \<le> hash_table d s"
      and g': "one_group g'" "located (dawg d) (hash_table d s) g'"
      unfolding tbl_ok_def by blast
    from located_append [OF g'(2), of es] g'(1) big False show ?thesis by auto
  qed
  show ?thesis unfolding tbl_ok_def using len' slots by blast
qed

lemma probe_outcome:
  assumes run: "probe d es i h inc = Some y" and ok: "tbl_ok d" and g: "one_group es"
  shows "y = Inl HashTableFull \<or> (\<exists>off d'. y = Inr (off, d') \<and> tbl_ok d' \<and> 257 \<le> off)"
proof -
  have "tbl_ok d \<and> one_group es \<longrightarrow>
          y = Inl HashTableFull \<or> (\<exists>off d'. y = Inr (off, d') \<and> tbl_ok d' \<and> 257 \<le> off)"
  proof (rule probe.raw_induct
      [where P = "\<lambda>d es i h inc y. tbl_ok d \<and> one_group es \<longrightarrow>
          y = Inl HashTableFull \<or> (\<exists>off d'. y = Inr (off, d') \<and> tbl_ok d' \<and> 257 \<le> off)",
        OF _ run], goal_cases)
    case (1 probe' d es i h inc y)
    show ?case
    proof (intro impI, elim conjE)
      assume ok: "tbl_ok d" and g: "one_group es"
      show "y = Inl HashTableFull \<or> (\<exists>off d'. y = Inr (off, d') \<and> tbl_ok d' \<and> 257 \<le> off)"
      proof (cases "hash_table d h = 0")
        case True
        with 1(2) have "y = Inr (length (dawg d) + 1,
            d\<lparr>dawg := dawg d @ es, hash_table := (hash_table d)(h := length (dawg d))\<rparr>)"
          by simp
        moreover have "257 \<le> length (dawg d) + 1" using ok by (simp add: tbl_ok_def)
        ultimately show ?thesis using tbl_ok_insert [OF ok g True] by blast
      next
        case False
        with ok obtain g' where big: "256 \<le> hash_table d h"
          and g': "one_group g'" "located (dawg d) (hash_table d h) g'"
          by (auto simp: tbl_ok_def)
        from equal_defined [OF g g'] obtain b where
          eq: "equal es (dawg d) (hash_table d h) = Some b" by blast
        show ?thesis
        proof (cases b)
          case True
          with 1(2) False eq have "y = Inr (hash_table d h + 1, d)" by simp
          with ok big show ?thesis by simp
        next
          case nb: False
          show ?thesis
          proof (cases "hash_modulo_increment h inc = i")
            case True
            with 1(2) False eq nb show ?thesis by simp
          next
            case ni: False
            with 1(2) \<open>hash_table d h \<noteq> 0\<close> eq nb
            have "probe' d es i (hash_modulo_increment h inc) (hash_modulo_increment inc 8)
                  = Some y" by simp
            from 1(1) [OF this] ok g show ?thesis by blast
          qed
        qed
      qed
    qed
  qed
  with ok g show ?thesis by blast
qed

lemma insertEdges_cases:
  assumes ok: "tbl_ok d" and g: "one_group es"
  shows "insertEdges d es = Some (Inl HashTableFull)
         \<or> (\<exists>off d'. insertEdges d es = Some (Inr (off, d')) \<and> tbl_ok d' \<and> 257 \<le> off
               \<and> off \<le> length (dawg d') \<and> located (dawg d') (off - 1) es \<and> grows d d')"
proof -
  from insertEdges_ends [of d es] obtain y where y: "insertEdges d es = Some y" by blast
  from probe_outcome [OF y [unfolded insertEdges_def] ok g]
  show ?thesis
  proof
    assume "y = Inl HashTableFull"
    with y show ?thesis by simp
  next
    assume "\<exists>off d'. y = Inr (off, d') \<and> tbl_ok d' \<and> 257 \<le> off"
    then obtain off d' where r: "y = Inr (off, d')" "tbl_ok d'" "257 \<le> off" by blast
    from probe_located [OF y [unfolded insertEdges_def r(1)]]
    have l: "located (dawg d') (off - 1) es" by simp
    from g have "es \<noteq> []" by (simp add: one_group_def)
    with located_bound [OF l] r(3) have "off \<le> length (dawg d')"
      by (cases es) simp_all
    with y r l insertEdges_grows [OF y [unfolded r(1)]] show ?thesis by blast
  qed
qed

lemma on_last_nonempty: "es \<noteq> [] \<Longrightarrow> on_last f es \<noteq> []"
  by (simp add: on_last_def)

lemma butlast_on_last [simp]: "butlast (on_last f es) = butlast es"
  by (simp add: on_last_def)

lemma last_on_last [simp]: "last (on_last f es) = f (last es)"
  by (simp add: on_last_def)

lemma set_on_last: "es \<noteq> [] \<Longrightarrow> set (on_last f es) = set (butlast es) \<union> {f (last es)}"
  by (auto simp: on_last_def)

lemma map_on_last:
  "es \<noteq> [] \<Longrightarrow> (\<And>n. g (f n) = g n) \<Longrightarrow> map g (on_last f es) = map g es"
proof -
  assume ne: "es \<noteq> []" and gf: "\<And>n. g (f n) = g n"
  have "map g (on_last f es) = map g (butlast es) @ [g (last es)]"
    by (simp add: on_last_def gf)
  also have "\<dots> = map g (butlast es @ [last es])" by simp
  also have "\<dots> = map g es" using ne by simp
  finally show ?thesis .
qed

lemma one_group_on_last:
  assumes "es \<noteq> []" "\<forall>n \<in> set es. \<not> isEndOfNode n"
  shows "one_group (on_last setEndOfNode es)"
proof -
  have "set (butlast es) \<subseteq> set es" by (auto dest: in_set_butlastD)
  with assms show ?thesis
    by (auto simp: one_group_def on_last_def)
qed

lemma nodes_sem_whole:
  assumes "es \<noteq> []" "nodes_sem lo arena (butlast es) ws" "child_sem lo arena (last es) cw"
  shows "nodes_sem lo arena es (ws @ edge_words (last es) cw)"
proof -
  have "nodes_sem lo arena (butlast es @ [last es]) (ws @ edge_words (last es) cw)"
    using assms(2,3) by (subst nodes_sem_append) auto
  with assms(1) show ?thesis by simp
qed

lemma spine_of_Cons: "spine_of (e # st) = spine_of st @ [getChar (last e)]"
  by (simp add: spine_of_def)

lemma length_spine_of [simp]: "length (spine_of st) = length st"
  by (simp add: spine_of_def)

lemma spine_pop:
  assumes "spine_of (tp # below) = take idx prev" "idx \<le> length prev" "0 < idx"
  shows "spine_of below = take (idx - 1) prev \<and> getChar (last tp) = prev ! (idx - 1)"
proof -
  from assms(2,3) have t: "take idx prev = take (idx - 1) prev @ [prev ! (idx - 1)]"
    by (cases idx) (simp_all add: take_Suc_conv_app_nth)
  with assms(1) show ?thesis by (simp add: spine_of_Cons)
qed

lemma builder_pop_empty:
  assumes inv: "builder_ok d ([] # popped) idx prev W" and pos: "0 < idx"
  shows "builder_ok d popped (idx - 1) prev W"
proof -
  from inv have ok: "tbl_ok d" and p: "pending_ok ([] # popped)"
    and s: "spine_ok ([] # popped) idx prev" and m: "sem_ok d ([] # popped) W"
    by (simp_all add: builder_ok_def)
  from s pos obtain tp below where pp: "popped = tp # below"
    by (cases popped) (auto simp: spine_ok_def)
  from p pp have tp: "tp \<noteq> []" by (simp add: pending_ok_def)
  from s pp have sp: "spine_of (tp # below) = take idx prev" and le: "idx \<le> length prev"
    and len: "length below + 1 = idx"
    by (simp_all add: spine_ok_def)
  from spine_pop [OF sp le pos] have "spine_of below = take (idx - 1) prev"
    "getChar (last tp) = prev ! (idx - 1)" by simp_all
  with len le pos have s': "spine_ok popped (idx - 1) prev"
    by (auto simp: spine_ok_def pp)
  from p have p': "pending_ok popped"
    by (auto simp: pending_ok_def pp)
  from m have m': "sem_ok d popped W"
    by (simp add: sem_ok_def)
  from ok p' s' m' show ?thesis by (simp add: builder_ok_def)
qed

lemma builder_pop_commit:
  assumes inv: "builder_ok d (ready # tp # below) idx prev W" and ne: "ready \<noteq> []"
    and ins: "insertEdges d (on_last setEndOfNode ready) = Some (Inr (off, d'))"
    and ok': "tbl_ok d'" and big: "257 \<le> off" and le: "off \<le> length (dawg d')"
    and loc: "located (dawg d') (off - 1) (on_last setEndOfNode ready)" and gr: "grows d d'"
  shows "builder_ok d' (on_last (\<lambda>n. setChildOffset n (of_nat off)) tp # below) (idx - 1) prev W"
proof -
  let ?tp' = "on_last (\<lambda>n. setChildOffset n (of_nat off)) tp"
  from inv have p: "pending_ok (ready # tp # below)"
    and s: "spine_ok (ready # tp # below) idx prev" and m: "sem_ok d (ready # tp # below) W"
    by (simp_all add: builder_ok_def)
  from p have tp: "tp \<noteq> []" and tp0: "getOffset (last tp) = 0"
    and clean: "\<forall>n \<in> set ready. \<not> isEndOfNode n"
    by (simp_all add: pending_ok_def)
  have tp'ne: "?tp' \<noteq> []" by (simp add: on_last_def)
  \<comment> \<open>shape\<close>
  have "\<forall>n \<in> set ?tp'. \<not> isEndOfNode n"
  proof
    fix n assume "n \<in> set ?tp'"
    then have "n \<in> set (butlast tp) \<or> n = setChildOffset (last tp) (of_nat off)"
      by (auto simp: on_last_def)
    moreover have "set (butlast tp) \<subseteq> set tp" by (auto dest: in_set_butlastD)
    moreover have "last tp \<in> set tp" using tp by simp
    ultimately show "\<not> isEndOfNode n" using p by (auto simp: pending_ok_def)
  qed
  moreover have "map getChar ?tp' = map getChar tp"
    using tp by (rule map_on_last) simp
  ultimately have p': "pending_ok (?tp' # below)"
    using p by (auto simp: pending_ok_def)
  \<comment> \<open>spine\<close>
  from s have sp: "spine_of (tp # below) = take idx prev" and lp: "idx \<le> length prev"
    and len: "length below + 2 = idx + 1"
    by (simp_all add: spine_ok_def)
  then have pos: "0 < idx" by simp
  from spine_pop [OF sp lp pos] len lp pos have s': "spine_ok (?tp' # below) (idx - 1) prev"
    by (auto simp: spine_ok_def)
  \<comment> \<open>words\<close>
  have m': "sem_ok d' (?tp' # below) W"
    unfolding sem_ok_def
  proof
    assume small: "length (dawg d') < 2 ^ 21"
    from gr have pre: "prefix (dawg d) (dawg d')" by (simp add: grows_def)
    then have "length (dawg d) \<le> length (dawg d')" by (rule prefix_length_le)
    with small m have st: "stack_sem 256 (dawg d) (ready # tp # below) [] W"
      by (simp add: sem_ok_def)
    note fr = same_from_prefix [OF pre, of 256]
    from st ne obtain ws cw where
      n1: "nodes_sem 256 (dawg d) (butlast ready) ws"
      and c1: "child_sem 256 (dawg d) (last ready) cw"
      and s1: "stack_sem 256 (dawg d) (tp # below) (ws @ edge_words (last ready) cw) W"
      by auto
    let ?Wr = "ws @ edge_words (last ready) cw"
    have "nodes_sem 256 (dawg d) ready ?Wr" by (rule nodes_sem_whole [OF ne n1 c1])
    then have nr: "nodes_sem 256 (dawg d') ready ?Wr" using fr by (rule nodes_sem_frame)
    have grp: "group_sem 256 (dawg d') (off - 1) ?Wr"
      using loc ne clean big nr by (intro group_of_nodes [where es = ready]) simp_all
    from s1 tp obtain ws' cw' where
      n2: "nodes_sem 256 (dawg d) (butlast tp) ws'"
      and c2: "child_sem 256 (dawg d) (last tp) cw'"
      and s2: "stack_sem 256 (dawg d) below (ws' @ edge_words (last tp) (cw' @ ?Wr)) W"
      by auto
    from c2 tp0 have cw': "cw' = []" by (simp add: child_sem_def)
    have off21: "off < 2 ^ 21" using le small by simp
    have uo: "unat (getOffset (setChildOffset (last tp) (of_nat off))) = off"
      by (rule getOffset_setChildOffset_fresh [OF tp0 off21])
    then have nz: "getOffset (setChildOffset (last tp) (of_nat off)) \<noteq> 0"
      using big by auto
    have c': "child_sem 256 (dawg d') (last ?tp') ?Wr"
      using nz uo grp by (simp add: child_sem_def)
    have n': "nodes_sem 256 (dawg d') (butlast ?tp') ws'"
      using nodes_sem_frame [OF n2 fr] by simp
    have s': "stack_sem 256 (dawg d') below (ws' @ edge_words (last ?tp') (?Wr @ [])) W"
      using stack_sem_frame [OF s2 fr] by (simp add: cw')
    show "stack_sem 256 (dawg d') (?tp' # below) [] W"
      using tp'ne n' c' s' by (simp only: stack_sem.simps if_False) blast
  qed
  from ok' p' s' m' show ?thesis by (simp add: builder_ok_def)
qed

lemma unwind_words:
  assumes "builder_ok d edges idx prev W" "p \<le> idx"
  shows "unwind d edges idx p = Some (Inl HashTableFull)
         \<or> (\<exists>d' edges'. unwind d edges idx p = Some (Inr (d', edges', p))
               \<and> builder_ok d' edges' p prev W)"
  using assms
proof (induction "idx - p" arbitrary: d edges idx)
  case 0
  then have "idx = p" by simp
  with "0.prems" show ?case by (subst unwind.simps) simp
next
  case (Suc k)
  then have lt: "p < idx" and k: "k = (idx - 1) - p" and pos: "0 < idx" and le: "p \<le> idx - 1"
    by simp_all
  from Suc.prems(1) have sp: "spine_ok edges idx prev" and pe: "pending_ok edges"
    and ok: "tbl_ok d"
    by (simp_all add: builder_ok_def)
  from sp pos obtain ready tp below where e: "edges = ready # tp # below"
    by (cases edges; cases "tl edges") (auto simp: spine_ok_def)
  from pe e have tp: "tp \<noteq> []" by (simp add: pending_ok_def)
  show ?case
  proof (cases "ready = []")
    case True
    from builder_pop_empty [OF Suc.prems(1) [unfolded e True] pos]
    have inv': "builder_ok d (tp # below) (idx - 1) prev W" .
    have step: "unwind d edges idx p = unwind d (tp # below) (idx - 1) p"
      using lt by (subst unwind.simps) (simp add: e True)
    from Suc.hyps(1) [OF k inv' le]
    show ?thesis unfolding step .
  next
    case False
    from pe e have clean: "\<forall>n \<in> set ready. \<not> isEndOfNode n" by (simp add: pending_ok_def)
    from insertEdges_cases [OF ok one_group_on_last [OF False clean]]
    show ?thesis
    proof
      assume "insertEdges d (on_last setEndOfNode ready) = Some (Inl HashTableFull)"
      with lt False have "unwind d edges idx p = Some (Inl HashTableFull)"
        by (subst unwind.simps) (simp add: e)
      then show ?thesis by simp
    next
      assume "\<exists>off d'. insertEdges d (on_last setEndOfNode ready) = Some (Inr (off, d'))
                \<and> tbl_ok d' \<and> 257 \<le> off \<and> off \<le> length (dawg d')
                \<and> located (dawg d') (off - 1) (on_last setEndOfNode ready) \<and> grows d d'"
      then obtain off d' where ins: "insertEdges d (on_last setEndOfNode ready) = Some (Inr (off, d'))"
        and r: "tbl_ok d'" "257 \<le> off" "off \<le> length (dawg d')"
          "located (dawg d') (off - 1) (on_last setEndOfNode ready)" "grows d d'"
        by blast
      from builder_pop_commit [OF Suc.prems(1) [unfolded e] False ins r]
      have inv': "builder_ok d' (on_last (\<lambda>n. setChildOffset n (of_nat off)) tp # below)
                    (idx - 1) prev W" .
      have step: "unwind d edges idx p
                  = unwind d' (on_last (\<lambda>n. setChildOffset n (of_nat off)) tp # below) (idx - 1) p"
        using lt False tp ins by (subst unwind.simps) (simp add: e)
      from Suc.hyps(1) [OF k inv' le]
      show ?thesis unfolding step .
    qed
  qed
qed

lemma sorted_wrt_less_last:
  fixes xs :: "byte list"
  assumes "sorted_wrt (<) xs" "x \<in> set xs"
  shows "x \<le> last xs"
  using assms
proof (induction xs)
  case Nil
  then show ?case by simp
next
  case (Cons a xs)
  show ?case
  proof (cases "xs = []")
    case True
    with Cons.prems show ?thesis by simp
  next
    case False
    then have l: "last xs \<in> set xs" by simp
    show ?thesis
    proof (cases "x = a")
      case True
      with Cons.prems(1) l False show ?thesis by (auto intro: less_imp_le)
    next
      case nx: False
      with Cons show ?thesis using False by auto
    qed
  qed
qed

lemma pending_push:
  assumes p: "pending_ok (tp # below)" and lt: "tp \<noteq> [] \<longrightarrow> getChar (last tp) < c"
  shows "pending_ok ([] # (tp @ [mk_Node c e]) # below)"
proof -
  have "sorted_wrt (<) (map getChar (tp @ [mk_Node c e]))"
  proof (cases "tp = []")
    case True
    then show ?thesis by simp
  next
    case False
    from p have s: "sorted_wrt (<) (map getChar tp)" by (simp add: pending_ok_def)
    have "x < c" if "x \<in> set (map getChar tp)" for x
    proof -
      from sorted_wrt_less_last [OF s that] have "x \<le> last (map getChar tp)" .
      also have "last (map getChar tp) = getChar (last tp)" using False by (simp add: last_map)
      also have "\<dots> < c" using lt False by simp
      finally show ?thesis .
    qed
    with s show ?thesis by (auto simp: sorted_wrt_append)
  qed
  with p show ?thesis by (auto simp: pending_ok_def)
qed

lemma extend_words:
  assumes "k < length w" and "tbl_ok d" and "pending_ok (tp # below)"
    and "tp \<noteq> [] \<longrightarrow> getChar (last tp) < w ! k"
    and "length below = k" and "spine_of below = take k w"
    and "length (dawg d) < 2 ^ 21 \<longrightarrow>
           (\<exists>ws. nodes_sem 256 (dawg d) tp ws
                 \<and> stack_sem 256 (dawg d) below (ws @ [drop k w]) W')"
  shows "\<exists>edges''. extend (tp # below) k w = Inr (edges'', length w)
           \<and> builder_ok d edges'' (length w) w W'"
  using assms
proof (induction "length w - k" arbitrary: tp below k)
  case 0
  then show ?case by simp
next
  case (Suc m)
  let ?n = "mk_Node (w ! k) (k + 1 = length w)"
  let ?st = "[] # (tp @ [?n]) # below"
  have step: "extend (tp # below) k w = extend ?st (k + 1) w"
    using Suc.prems(1) by (subst extend.simps) simp
  have pend: "pending_ok ?st"
    by (rule pending_push [OF Suc.prems(3,4)])
  have spn: "spine_of ((tp @ [?n]) # below) = take (k + 1) w"
    using Suc.prems(1,6) by (simp add: spine_of_Cons take_Suc_conv_app_nth)
  have dk: "drop k w = w ! k # drop (k + 1) w"
    using Suc.prems(1) by (simp add: Cons_nth_drop_Suc)
  show ?case
  proof (cases "k + 1 = length w")
    case True
    have fin: "extend ?st (k + 1) w = Inr (?st, length w)"
      using True by (subst extend.simps) simp
    have sp: "spine_ok ?st (length w) w"
      using True Suc.prems(5) spn by (simp add: spine_ok_def)
    have sm: "sem_ok d ?st W'"
      unfolding sem_ok_def
    proof
      assume "length (dawg d) < 2 ^ 21"
      with Suc.prems(7) obtain ws where n: "nodes_sem 256 (dawg d) tp ws"
        and s: "stack_sem 256 (dawg d) below (ws @ [drop k w]) W'" by blast
      have c: "child_sem 256 (dawg d) ?n []" by (simp add: child_sem_def)
      have "edge_words ?n ([] @ []) = [drop k w]"
        using True dk by (simp add: edge_words_def)
      with s have "stack_sem 256 (dawg d) below (ws @ edge_words ?n ([] @ [])) W'" by simp
      with n c show "stack_sem 256 (dawg d) ?st [] W'"
        by (simp del: append_Nil2 append_Nil) blast
    qed
    from Suc.prems(2) pend sp sm have "builder_ok d ?st (length w) w W'"
      by (simp add: builder_ok_def)
    with step fin show ?thesis by simp
  next
    case False
    with Suc.prems(1) have lt: "k + 1 < length w" by simp
    from Suc.hyps(2) have m: "m = length w - (k + 1)" by simp
    have sem: "length (dawg d) < 2 ^ 21 \<longrightarrow>
           (\<exists>ws. nodes_sem 256 (dawg d) [] ws
                 \<and> stack_sem 256 (dawg d) ((tp @ [?n]) # below) (ws @ [drop (k + 1) w]) W')"
    proof
      assume "length (dawg d) < 2 ^ 21"
      with Suc.prems(7) obtain ws where n: "nodes_sem 256 (dawg d) tp ws"
        and s: "stack_sem 256 (dawg d) below (ws @ [drop k w]) W'" by blast
      have c: "child_sem 256 (dawg d) ?n []" by (simp add: child_sem_def)
      have "edge_words ?n ([] @ [drop (k + 1) w]) = [drop k w]"
        using False dk by (simp add: edge_words_def)
      with s have "stack_sem 256 (dawg d) below (ws @ edge_words ?n ([] @ [drop (k + 1) w])) W'"
        by simp
      with n c have "stack_sem 256 (dawg d) ((tp @ [?n]) # below) [drop (k + 1) w] W'"
        by (simp del: append_Nil2 append_Nil) blast
      then show "\<exists>ws. nodes_sem 256 (dawg d) [] ws
                 \<and> stack_sem 256 (dawg d) ((tp @ [?n]) # below) (ws @ [drop (k + 1) w]) W'"
        by simp
    qed
    have len: "length ((tp @ [?n]) # below) = k + 1" using Suc.prems(5) by simp
    from Suc.hyps(1) [OF m lt Suc.prems(2) pend _ len spn sem]
    show ?thesis unfolding step by simp
  qed
qed

lemma lcp_append_same [simp]: "longest_common_prefix (xs @ ys) xs = xs"
  by (induction xs) auto

lemma lcp_diverge: "a \<noteq> b \<Longrightarrow> longest_common_prefix (u @ b # y) (u @ a # x) = u"
  by (induction u) auto

lemma positive_not_zero: "char_less pf 0 c \<Longrightarrow> c \<noteq> 0"
  by (auto simp: char_less_def split: if_splits)

lemma positive_not_below_zero: "char_less pf 0 c \<Longrightarrow> \<not> char_less pf c 0"
  by (auto simp: char_less_def split: if_splits)

lemma sint_positive_uint:
  fixes x :: byte
  assumes "0 < sint x"
  shows "sint x = uint x"
proof -
  have nb: "\<not> bit x 7" using assms bit_last_iff [of x] by simp
  have "uint x = take_bit (Suc 7) (uint x)"
    using take_bit_int_eq_self [of "uint x" 8] uint_lt2p [of x] by simp
  also have "\<dots> = take_bit 7 (uint x)"
    using nb by (simp only: take_bit_Suc_from_most) (simp add: bit_uint_iff)
  finally have u: "uint x = take_bit 7 (uint x)" .
  have "uint x < 2 ^ 7" by (subst u) (rule take_bit_int_less_exp)
  moreover have "- (2 ^ 7) \<le> uint x"
  proof -
    have "- (2 ^ 7) \<le> (0 :: int)" by simp
    also have "0 \<le> uint x" by simp
    finally show ?thesis .
  qed
  ultimately have "signed_take_bit 7 (uint x) = uint x"
    by (intro signed_take_bit_int_eq_self)
  then show ?thesis by (simp add: sint_uint)
qed

lemma positive_order:
  assumes "char_less pf 0 a" "char_less pf 0 b" "a < b"
  shows "\<not> char_less pf b a"
proof (cases "char_signed pf")
  case False
  with assms(3) show ?thesis by (simp add: char_less_def)
next
  case True
  with assms(1,2) have "0 < sint a" "0 < sint b" by (simp_all add: char_less_def)
  then have "sint a = uint a" "sint b = uint b" by (auto intro: sint_positive_uint)
  moreover have "uint a < uint b" using assms(3) by (simp add: word_less_def)
  ultimately show ?thesis using True by (simp add: char_less_def)
qed

lemma reader_accepts:
  assumes rem: "remaining (input wb) = w # ws" and gw: "good_word pf w"
    and pp: "\<forall>c \<in> set (current wb). char_less pf 0 c"
    and lx: "(current wb, w) \<in> byte_lex"
  shows "\<exists>wb' p. WordBuffer_next pf wb = Inr ((p, w), wb') \<and> current wb' = w
           \<and> remaining (input wb') = ws \<and> p \<le> length (current wb) \<and> p < length w
           \<and> take p w = take p (current wb)
           \<and> (p < length (current wb) \<longrightarrow> current wb ! p < w ! p)"
proof -
  let ?prev = "current wb"
  from gw have l2: "2 \<le> length w" and sso: "length w \<le> sso_capacity pf"
    and pos: "\<forall>c \<in> set w. char_less pf 0 c"
    by (simp_all add: good_word_def)
  from pos have nz: "0 \<notin> set w" by (auto dest: positive_not_zero)
  from skip_short_long [OF rem l2, of "count wb" "[]"] obtain inp' where
    sk: "skip_short (input wb) (count wb) [] = (inp', count wb, w)"
    and rm: "remaining inp' = ws" by blast
  let ?p = "length (longest_common_prefix w ?prev)"
  have mm: "mismatch w (?prev @ [0]) = Some ?p" by (rule mismatch_lcp [OF nz])
  have facts: "?p \<le> length ?prev \<and> ?p < length w \<and> take ?p w = take ?p ?prev
               \<and> (?p < length ?prev \<longrightarrow> ?prev ! ?p < w ! ?p)
               \<and> \<not> char_less pf (w ! ?p) ((?prev @ [0]) ! ?p)"
  proof -
    from lx consider (pre) a v where "w = ?prev @ a # v"
      | (dif) u a b v y where "a < b" "?prev = u @ a # v" "w = u @ b # y"
      unfolding byte_lex_def lexord_def by auto
    then show ?thesis
    proof cases
      case pre
      have "char_less pf 0 a" using pos pre by simp
      then have "\<not> char_less pf a 0" by (rule positive_not_below_zero)
      then show ?thesis by (simp add: pre nth_append)
    next
      case dif
      have ne: "a \<noteq> b" using dif(1) by simp
      have l: "longest_common_prefix w ?prev = u"
        unfolding dif(2,3) by (rule lcp_diverge [OF ne])
      have "char_less pf 0 a" using pp dif(2) by simp
      moreover have "char_less pf 0 b" using pos dif(3) by simp
      ultimately have "\<not> char_less pf b a" using dif(1) by (rule positive_order)
      then show ?thesis using dif(1) by (simp add: l) (simp add: dif(2,3) nth_append)
    qed
  qed
  have "w \<noteq> []" using l2 by auto
  with facts sk mm sso have
    "WordBuffer_next pf wb = Inr ((?p, w), \<lparr>count = count wb, current = w, input = inp'\<rparr>)"
    by (simp add: WordBuffer_next_def)
  with facts rm show ?thesis by auto
qed

lemma parse_loop_words:
  assumes "remaining (input wb) = ws"
    and "\<forall>w \<in> set ws. good_word pf w"
    and "\<forall>c \<in> set (current wb). char_less pf 0 c"
    and "sorted_wrt (\<lambda>a b. (a, b) \<in> byte_lex) (current wb # ws)"
    and "builder_ok d edges (length (current wb)) (current wb) W"
  shows "parse_loop pf wb d edges (length (current wb)) = Some (Inl HashTableFull)
         \<or> (\<exists>d' root prev'. parse_loop pf wb d edges (length (current wb)) = Some (Inr (d', [root]))
               \<and> builder_ok d' [root] 0 prev' (W @ ws))"
  using assms
proof (induction ws arbitrary: wb d edges W)
  case Nil
  let ?prev = "current wb"
  from WordBuffer_next_end [of wb pf] Nil.prems(1) obtain wb' where
    nx: "WordBuffer_next pf wb = Inr ((0, []), wb')" by blast
  have "0 \<le> length ?prev" by simp
  from unwind_words [OF Nil.prems(5) this]
  show ?case
  proof
    assume u: "unwind d edges (length ?prev) 0 = Some (Inl HashTableFull)"
    have "parse_loop pf wb d edges (length ?prev) = Some (Inl HashTableFull)"
      by (subst parse_loop.simps) (simp add: nx u)
    then show ?thesis by simp
  next
    assume "\<exists>d' edges'. unwind d edges (length ?prev) 0 = Some (Inr (d', edges', 0))
              \<and> builder_ok d' edges' 0 ?prev W"
    then obtain d' edges' where u: "unwind d edges (length ?prev) 0 = Some (Inr (d', edges', 0))"
      and inv: "builder_ok d' edges' 0 ?prev W" by blast
    from inv have "length edges' = 1" by (simp add: builder_ok_def spine_ok_def)
    then obtain root where r: "edges' = [root]" by (cases edges') auto
    have "parse_loop pf wb d edges (length ?prev) = Some (Inr (d', [root]))"
      by (subst parse_loop.simps) (simp add: nx u r)
    with inv r show ?thesis by auto
  qed
next
  case (Cons w ws)
  let ?prev = "current wb"
  from Cons.prems(2) have gw: "good_word pf w" and gws: "\<forall>w \<in> set ws. good_word pf w"
    by simp_all
  from Cons.prems(4) have lx: "(?prev, w) \<in> byte_lex"
    and srt: "sorted_wrt (\<lambda>a b. (a, b) \<in> byte_lex) (w # ws)"
    by simp_all
  from reader_accepts [OF Cons.prems(1) gw Cons.prems(3) lx] obtain wb' p where
    nx: "WordBuffer_next pf wb = Inr ((p, w), wb')" and cur: "current wb' = w"
    and rm: "remaining (input wb') = ws" and ple: "p \<le> length ?prev" and plt: "p < length w"
    and tk: "take p w = take p ?prev" and asc: "p < length ?prev \<longrightarrow> ?prev ! p < w ! p"
    by blast
  from plt have wne: "w \<noteq> []" by auto
  from unwind_words [OF Cons.prems(5) ple]
  show ?case
  proof
    assume u: "unwind d edges (length ?prev) p = Some (Inl HashTableFull)"
    have "parse_loop pf wb d edges (length ?prev) = Some (Inl HashTableFull)"
      using ple by (subst parse_loop.simps) (simp add: nx u)
    then show ?thesis by simp
  next
    assume "\<exists>d' edges'. unwind d edges (length ?prev) p = Some (Inr (d', edges', p))
              \<and> builder_ok d' edges' p ?prev W"
    then obtain d1 edges1 where u: "unwind d edges (length ?prev) p = Some (Inr (d1, edges1, p))"
      and inv: "builder_ok d1 edges1 p ?prev W" by blast
    from inv have ok: "tbl_ok d1" and pe: "pending_ok edges1" and sp: "spine_ok edges1 p ?prev"
      and sm: "sem_ok d1 edges1 W"
      by (simp_all add: builder_ok_def)
    from pe obtain tp below where e1: "edges1 = tp # below"
      by (cases edges1) (auto simp: pending_ok_def)
    from sp e1 have len: "length below = p" and spn: "spine_of below = take p w"
      and top: "tp \<noteq> [] \<longrightarrow> getChar (last tp) < w ! p"
      using tk asc by (auto simp: spine_ok_def)
    from pe e1 have nb: "\<forall>e \<in> set below. e \<noteq> []" by (simp add: pending_ok_def)
    have sem: "length (dawg d1) < 2 ^ 21 \<longrightarrow>
           (\<exists>ws0. nodes_sem 256 (dawg d1) tp ws0
                 \<and> stack_sem 256 (dawg d1) below (ws0 @ [drop p w]) (W @ [w]))"
    proof
      assume "length (dawg d1) < 2 ^ 21"
      with sm e1 have "stack_sem 256 (dawg d1) (tp # below) [] W" by (simp add: sem_ok_def)
      from stack_sem_top [OF this] obtain ws0 where n: "nodes_sem 256 (dawg d1) tp ws0"
        and s: "stack_sem 256 (dawg d1) below ws0 W" by blast
      from stack_sem_push_word [OF s nb, of "drop p w"]
      have "stack_sem 256 (dawg d1) below (ws0 @ [drop p w]) (W @ [take p w @ drop p w])"
        by (simp add: spn)
      with n show "\<exists>ws0. nodes_sem 256 (dawg d1) tp ws0
                 \<and> stack_sem 256 (dawg d1) below (ws0 @ [drop p w]) (W @ [w])"
        by auto
    qed
    from extend_words [OF plt ok pe [unfolded e1] top len spn sem] obtain edges2 where
      ex: "extend (tp # below) p w = Inr (edges2, length w)"
      and inv2: "builder_ok d1 edges2 (length w) w (W @ [w])" by blast
    have step: "parse_loop pf wb d edges (length ?prev) = parse_loop pf wb' d1 edges2 (length w)"
      using ple wne by (subst parse_loop.simps) (simp add: nx u e1 ex)
    have pos: "\<forall>c \<in> set (current wb'). char_less pf 0 c"
      using gw cur by (simp add: good_word_def)
    from Cons.IH [OF rm gws pos srt [folded cur] inv2 [folded cur]]
    show ?thesis unfolding step cur by simp
  qed
qed

lemma child_sem_lower: "child_sem lo arena n cw \<Longrightarrow> lo' \<le> lo \<Longrightarrow> child_sem lo' arena n cw"
  by (auto simp: child_sem_def intro: group_sem_lower split: if_splits)

lemma nodes_sem_lower: "nodes_sem lo arena ns ws \<Longrightarrow> lo' \<le> lo \<Longrightarrow> nodes_sem lo' arena ns ws"
proof (induction ns arbitrary: ws)
  case Nil
  then show ?case by simp
next
  case (Cons n ns)
  then show ?case by (auto intro: child_sem_lower)
qed

lemma builder_ok_init: "builder_ok Dawg_init [[]] 0 [] []"
  by (simp add: builder_ok_def tbl_ok_def pending_ok_def spine_ok_def sem_ok_def
      Dawg_init_def MAX_CHARS_def spine_of_def)

lemma sorted_bytes_length:
  fixes xs :: "byte list"
  assumes "sorted_wrt (<) xs"
  shows "length xs \<le> 256"
proof -
  from assms have "distinct xs" by (induction xs) auto
  then have "length xs = card (set xs)" by (simp add: distinct_card)
  also have "\<dots> \<le> card (UNIV :: byte set)" by (rule card_mono) simp_all
  also have "\<dots> = 256" by (simp add: card_word)
  finally show ?thesis .
qed

lemma located_take: "n \<le> length xs \<Longrightarrow> located (xs @ ys) 0 (take n xs)"
  by (simp add: located_def)

lemma finalise_words:
  assumes inv: "builder_ok d [root] 0 prev W"
  shows "\<exists>d'. finalise d [root] = Inr d' \<and> length (dawg d') = length (dawg d)
           \<and> (length (dawg d) < 2 ^ 21 \<longrightarrow> group_sem 0 (dawg d') 0 W)"
proof -
  from inv have ok: "tbl_ok d" and pe: "pending_ok [root]" and sm: "sem_ok d [root] W"
    by (simp_all add: builder_ok_def)
  from ok have big: "256 \<le> length (dawg d)" by (simp add: tbl_ok_def)
  define root1 where "root1 = (if root \<noteq> [] then on_last setEndOfNode root else root)"
  define root2 where "root2 = take 256 root1 @ replicate (256 - length root1) 0"
  define root3 where "root3 = on_last setEndOfNode root2"
  define d' where "d' = d\<lparr>dawg := root3 @ drop 256 (dawg d)\<rparr>"
  have fin: "finalise d [root] = Inr d'"
    using big by (simp add: finalise_def Let_def MAX_CHARS_def root1_def root2_def root3_def d'_def)
  have l2: "length root2 = 256" by (simp add: root2_def)
  then have ne2: "root2 \<noteq> []" by auto
  have l3: "length root3 = 256"
    using l2 ne2 by (cases root2 rule: rev_cases) (simp_all add: root3_def)
  have len: "length (dawg d') = length (dawg d)" using big l3 by (simp add: d'_def)
  have frame: "same_from 256 (dawg d) (dawg d')"
    using l3 big by (auto simp: same_from_def d'_def nth_append)
  have sem: "group_sem 0 (dawg d') 0 W" if small: "length (dawg d) < 2 ^ 21"
  proof -
    from sm small have "stack_sem 256 (dawg d) [root] [] W" by (simp add: sem_ok_def)
    from stack_sem_top [OF this] have n: "nodes_sem 256 (dawg d) root W" by simp
    show ?thesis
    proof (cases "root = []")
      case True
      with n have W: "W = []" by simp
      have "root3 = empty_root"
      proof -
        have "replicate (Suc 255) (0 :: node) = replicate 255 0 @ [0]"
          by (simp only: replicate_Suc replicate_append_same)
        then have "replicate 256 (0 :: node) = replicate 255 0 @ [0]" by simp
        then show ?thesis
          using True by (simp add: root3_def root2_def root1_def empty_root_def setEndOfNode_def)
      qed
      then have "prefix empty_root (dawg d')" by (simp add: d'_def)
      from group_sem_frame [OF empty_root_sem [of 0] same_from_prefix [OF this]] W
      show ?thesis by simp
    next
      case False
      from pe have clean: "\<forall>n \<in> set root. \<not> isEndOfNode n"
        and srt: "sorted_wrt (<) (map getChar root)"
        by (simp_all add: pending_ok_def)
      from sorted_bytes_length [OF srt] have lr: "length root \<le> 256" by simp
      have r1: "root1 = on_last setEndOfNode root" using False by (simp add: root1_def)
      have l1: "length root1 = length root"
        using False by (cases root rule: rev_cases) (simp_all add: r1)
      have r2: "root2 = root1 @ replicate (256 - length root) 0"
        using lr l1 by (simp add: root2_def)
      have "\<exists>tl. root3 = root1 @ tl"
      proof (cases "length root = 256")
        case True
        then have "root2 = root1" by (simp add: r2)
        moreover have "on_last setEndOfNode root1 = root1"
          using False by (cases root rule: rev_cases) (simp_all add: r1 setEndOfNode_def)
        ultimately show ?thesis by (simp add: root3_def)
      next
        case nf: False
        with lr obtain k where k: "256 - length root = Suc k" by (cases "256 - length root") auto
        have "replicate (Suc k) (0 :: node) = replicate k 0 @ [0]"
          by (simp only: replicate_Suc replicate_append_same)
        then have "root2 = (root1 @ replicate k 0) @ [0]" by (simp add: r2 k)
        then have "root3 = (root1 @ replicate k 0) @ [setEndOfNode 0]"
          unfolding root3_def by (simp only: on_last_snoc)
        then have "root3 = root1 @ (replicate k 0 @ [setEndOfNode 0])" by simp
        then show ?thesis by blast
      qed
      then obtain tl where r3: "root3 = root1 @ tl" by blast
      have loc: "located (dawg d') 0 (on_last setEndOfNode root)"
        by (simp add: d'_def r3 r1 located_def)
      have n0: "nodes_sem 0 (dawg d') root W"
        by (rule nodes_sem_lower [OF nodes_sem_frame [OF n frame]]) simp
      from group_of_nodes [OF loc False clean _ n0] show ?thesis by simp
    qed
  qed
  from fin len sem show ?thesis by blast
qed

lemma length_save: "length (save d) = 4 * length (dawg d) + 4"
  by (simp add: save_def length_concat_output) (simp add: output_u32_def)

lemma dump_saved:
  assumes "group_sem 0 (dawg d) 0 W" "length (dawg d) < 2 ^ 21"
  shows "dump_file (save d) = Some (Inr (lines_of [] W, []))"
proof -
  have "length (dawg d) < 2 ^ 30 - 1" using assms(2) by simp
  then have "load (save d) = Inr \<lparr>dawg = dawg d, hash_table = (\<lambda>_. 0)\<rparr>" by (rule load_save)
  moreover have "dump \<lparr>dawg = dawg d, hash_table = (\<lambda>_. 0)\<rparr> = Some (Inr (lines_of [] W, []))"
    using assms(1) by (intro dump_root [where lo = 0]) simp
  ultimately show ?thesis by (simp add: dump_file_def)
qed

lemma create_words:
  assumes tk: "tokens inp = L" and gw: "\<forall>w \<in> set L. good_word pf w"
    and srt: "sorted_wrt (\<lambda>a b. (a, b) \<in> byte_lex) L"
  shows "create pf inp = Some (Inl HashTableFull)
         \<or> (\<exists>d. create pf inp = Some (Inr (save d))
               \<and> (length (dawg d) < 2 ^ 21 \<longrightarrow> group_sem 0 (dawg d) 0 L))"
proof -
  let ?wb = "\<lparr>count = 0, current = [], input = istream_of inp\<rparr>"
  have rm: "remaining (input ?wb) = L" using tk by (simp add: remaining_def istream_of_def)
  have pos: "\<forall>c \<in> set (current ?wb). char_less pf 0 c" by simp
  have "([], w) \<in> byte_lex" if "w \<in> set L" for w
  proof -
    from gw that have "w \<noteq> []" by (auto simp: good_word_def)
    then show ?thesis by (cases w) (simp_all add: byte_lex_def)
  qed
  with srt have s0: "sorted_wrt (\<lambda>a b. (a, b) \<in> byte_lex) (current ?wb # L)" by simp
  have inv: "builder_ok Dawg_init [[]] (length (current ?wb)) (current ?wb) []"
    using builder_ok_init by simp
  from parse_loop_words [OF rm gw pos s0 inv]
  show ?thesis
  proof
    assume "parse_loop pf ?wb Dawg_init [[]] (length (current ?wb)) = Some (Inl HashTableFull)"
    then have "create pf inp = Some (Inl HashTableFull)"
      by (simp add: create_def parse_def)
    then show ?thesis by simp
  next
    assume "\<exists>d' root prev'.
              parse_loop pf ?wb Dawg_init [[]] (length (current ?wb)) = Some (Inr (d', [root]))
              \<and> builder_ok d' [root] 0 prev' ([] @ L)"
    then obtain d' root prev' where
      pl: "parse_loop pf ?wb Dawg_init [[]] 0 = Some (Inr (d', [root]))"
      and b: "builder_ok d' [root] 0 prev' L" by auto
    from finalise_words [OF b] obtain d where f: "finalise d' [root] = Inr d"
      and l: "length (dawg d) = length (dawg d')"
      and g: "length (dawg d') < 2 ^ 21 \<longrightarrow> group_sem 0 (dawg d) 0 L" by blast
    have "create pf inp = Some (Inr (save d))"
      by (simp add: create_def parse_def pl f)
    with l g show ?thesis by auto
  qed
qed

text \<open>
  C10. \<open>Node::setChildOffset\<close> checks no range. It ORs the low 21 bits of its argument
  into the value, so the offset field of a fresh node receives the argument modulo
  \<open>2 ^ 21\<close>, whatever the argument is. \<open>insertEdges\<close> on an arena of more than 2,097,151
  edges, at a free slot, returns the arena length plus one, and the field then holds
  that offset modulo \<open>2 ^ 21\<close>, a smaller number.
\<close>

theorem setChildOffset_no_range_check:
  "setChildOffset v off = v OR (off AND 0x1fffff)
   \<and> unat (getOffset (setChildOffset (mk_Node c w) off)) = unat off mod 2 ^ 21
   \<and> (2097151 < length (dawg d) \<longrightarrow> hash_table d (hash es) = 0 \<longrightarrow>
        (\<exists>d'. insertEdges d es = Some (Inr (length (dawg d) + 1, d')))
        \<and> unat (getOffset (setChildOffset (mk_Node c w) (of_nat (length (dawg d) + 1))))
            = (length (dawg d) + 1) mod 2 ^ 21
        \<and> (length (dawg d) + 1) mod 2 ^ 21 < length (dawg d) + 1)"
proof -
  have field: "unat (getOffset (setChildOffset (mk_Node c w) x)) = unat x mod 2 ^ 21" for x
    by (simp add: getOffset_setChildOffset unat_and_offset_mask)
  have conv: "unat (of_nat n :: u32) mod 2 ^ 21 = n mod 2 ^ 21" for n
  proof -
    have "unat (of_nat n :: u32) = n mod 2 ^ 32"
      by (simp add: unat_of_nat)
    moreover have "(2::nat) ^ 21 dvd 2 ^ 32"
      by (rule le_imp_power_dvd) simp
    ultimately show ?thesis
      by (simp add: mod_mod_cancel)
  qed
  have less: "n mod 2 ^ 21 < n" if "2097151 < n" for n :: nat
  proof -
    have "n mod 2 ^ 21 < 2 ^ 21" by simp
    with that show ?thesis by simp
  qed
  have a: "setChildOffset v off = v OR (off AND 0x1fffff)"
    by (simp add: setChildOffset_def offset_mask_def)
  have b: "\<exists>d'. insertEdges d es = Some (Inr (length (dawg d) + 1, d'))"
    if "hash_table d (hash es) = 0"
    using that by (simp add: insertEdges_def probe_empty)
  have c: "unat (getOffset (setChildOffset (mk_Node c w) (of_nat (length (dawg d) + 1))))
            = (length (dawg d) + 1) mod 2 ^ 21"
    unfolding field by (rule conv)
  have d: "(length (dawg d) + 1) mod 2 ^ 21 < length (dawg d) + 1"
    if "2097151 < length (dawg d)"
    using that by (intro less) simp
  from a field [of off] b c d show ?thesis by blast
qed

theorem setChildOffset_no_range_check_witness:
  "(\<exists>d'. insertEdges \<lparr>dawg = replicate 2097152 0, hash_table = (\<lambda>_. 0)\<rparr> [0x00400000]
            = Some (Inr (2097153, d')))
   \<and> unat (getOffset (setChildOffset (mk_Node 0x61 True) (of_nat 2097153))) = 1"
  using setChildOffset_no_range_check
    [where v = 0 and off = 0 and c = "0x61" and w = True
       and d = "\<lparr>dawg = replicate 2097152 0, hash_table = (\<lambda>_. 0)\<rparr>" and es = "[0x00400000]"]
  by simp

text \<open>
  C7. The size test of \<open>Dawg::load\<close> adds in 32 bits. The four-byte file
  \<open>00 00 00 40\<close> declares \<open>2 ^ 30\<close> edges; \<open>edges * 4 + 4\<close> wraps to 4, the size of
  the file, and the file is accepted although its size is not \<open>4 * (N + 1)\<close>: the arena
  is resized to \<open>2 ^ 30\<close> nodes and no node is read.
\<close>

theorem load_size_check_wraps:
  "length [0, 0, 0, 0x40 :: byte] \<noteq> 4 * (unat (read_u32 [0, 0, 0, 0x40]) + 1)
   \<and> load [0, 0, 0, 0x40] \<noteq> Inl CorruptFile
   \<and> (\<exists>d. load [0, 0, 0, 0x40] = Inr d \<and> length (dawg d) = 2 ^ 30)"
  by (simp add: load_def read_u32_def Let_def)

text \<open>
  C4. \<open>Dawg::dump\<close> range-checks the step along an offset only. The step to the next
  edge of a group, \<open>stack.back()++\<close>, is not checked: on the arena of the one node
  \<open>0\<close> (file \<open>01 00 00 00 00 00 00 00\<close>) the node has neither an offset nor
  \<open>end_of_node\<close>, the pointer moves to index 1, and the next round of the loop reads
  there, behind the end of the arena.
\<close>

theorem dump_reads_behind_the_arena:
  "dump_file [1, 0, 0, 0, 0, 0, 0, 0] = Some (Inl Undefined)"
  by code_simp

text \<open>
  C3, as the code has it. For an input without any token (empty, or white space only)
  \<open>create\<close> writes the count 256 and the root group of 256 entries: 255 zero nodes
  and a last node that has only \<open>end_of_node\<close>, 1028 bytes in all; \<open>dump\<close> of that
  file writes nothing.
\<close>

theorem empty_lexicon_writes_root:
  "tokens inp = []
   \<Longrightarrow> create pf inp = Some (Inr ([0, 1, 0, 0] @ replicate 1020 0 @ [0, 0, 0x40, 0]))
       \<and> dump_file ([0, 1, 0, 0] @ replicate 1020 0 @ [0, 0, 0x40, 0]) = Some (Inr ([], []))"
  using create_no_tokens [of inp pf] dump_empty_file by (simp add: empty_file_def)

theorem empty_lexicon_writes_root_witness:
  "tokens [0x20, 0x0a] = []
   \<and> create \<lparr>char_signed = True, sso_capacity = 15\<rparr> [0x20, 0x0a]
       = Some (Inr ([0, 1, 0, 0] @ replicate 1020 0 @ [0, 0, 0x40, 0]))
   \<and> dump_file ([0, 1, 0, 0] @ replicate 1020 0 @ [0, 0, 0x40, 0]) = Some (Inr ([], []))"
proof -
  have t: "tokens [0x20, 0x0a] = []"
    by (simp add: tokens_Nil_iff isspace_def)
  from t empty_lexicon_writes_root [OF t] show ?thesis by simp
qed

text \<open>
  C3, as stated, fails: for the empty input the output file is not the four bytes
  \<open>00 00 00 00\<close>.
\<close>

theorem empty_lexicon_not_four_bytes:
  "create \<lparr>char_signed = True, sso_capacity = 15\<rparr> [] \<noteq> Some (Inr [0, 0, 0, 0])"
proof -
  have "tokens [] = []" by (simp add: tokens_Nil_iff)
  from create_no_tokens [OF this] show ?thesis by (simp add: empty_file_def)
qed




text \<open>
  C8. A token of sixteen characters, on an implementation that keeps fifteen inside the
  string object: \<open>current = std::move(s)\<close> takes the heap buffer of \<open>s\<close>, and the prefix
  length \<open>std::distance(s.cbegin(), search.first)\<close> is then the distance of two pointers
  into different buffers. The value \<open>parse\<close> compares with \<open>idx\<close> is not defined.
\<close>

theorem long_token_undefined_position:
  "create \<lparr>char_signed = True, sso_capacity = 15\<rparr>
     [0x61, 0x62, 0x63, 0x64, 0x65, 0x66, 0x67, 0x68, 0x69, 0x6a, 0x6b, 0x6c, 0x6d, 0x6e,
      0x6f, 0x70, 0x0a]
   = Some (Inl Undefined)"
  by (simp add: create_def parse_def parse_loop.simps WordBuffer_next_def skip_short.simps
      op_extract_def istream_of_def isspace_def char_less_def)

text \<open>
  C6. \<open>insertEdges\<close> is interning as the specification words it: the same first slot
  (the rotate-and-XOR fold modulo 240007), the same sequence of slots (increment from 9,
  advanced by 8, both modulo 240007), the same outcome at the first free or matching slot,
  and \<open>HashTableFull\<close> when the sequence is back at the first slot.
\<close>

theorem insertEdges_probe_sequence:
  "insertEdges d edges = intern_spec d edges"
  unfolding insertEdges_def intern_spec_def hash_spec [symmetric]
  by (rule probe_eq_spec) (simp_all add: hash_def HASH_TABLE_SIZE_def)

text \<open>
  C9. \<open>insertEdges\<close> leaves the arena as it is or appends the edge list at its end, and
  leaves every occupied slot of the hash table as it is. Through the whole loop of
  \<open>parse\<close> the arena only grows at its end and occupied slots stay. The last step of
  \<open>parse\<close> keeps the length, the hash table and every entry from index 256 on, and
  writes the padded root group into the indices 0 to 255: the arena is then the padded
  root group followed by the entries committed before.
\<close>

theorem committed_edges_never_move:
  "(insertEdges d es = Some (Inr (off, d1)) \<longrightarrow>
      (dawg d1 = dawg d \<or> dawg d1 = dawg d @ es)
      \<and> (\<forall>s. hash_table d s \<noteq> 0 \<longrightarrow> hash_table d1 s = hash_table d s))
   \<and> (parse_loop pf wb d edges idx = Some (Inr (d2, edges2)) \<longrightarrow>
        prefix (dawg d) (dawg d2)
        \<and> (\<forall>s. hash_table d s \<noteq> 0 \<longrightarrow> hash_table d2 s = hash_table d s))
   \<and> (finalise d2 edges2 = Inr d3 \<longrightarrow>
        length (dawg d3) = length (dawg d2)
        \<and> drop 256 (dawg d3) = drop 256 (dawg d2)
        \<and> hash_table d3 = hash_table d2
        \<and> edges2 \<noteq> []
        \<and> take 256 (dawg d3) = padded_root (hd edges2)
        \<and> dawg d3 = padded_root (hd edges2) @ drop 256 (dawg d2))"
proof (intro conjI impI)
  assume i: "insertEdges d es = Some (Inr (off, d1))"
  from probe_frame [OF i [unfolded insertEdges_def]]
  show "dawg d1 = dawg d \<or> dawg d1 = dawg d @ es" by auto
  from insertEdges_grows [OF i]
  show "\<forall>s. hash_table d s \<noteq> 0 \<longrightarrow> hash_table d1 s = hash_table d s"
    by (simp add: grows_def)
next
  assume p: "parse_loop pf wb d edges idx = Some (Inr (d2, edges2))"
  from parse_loop_grows [OF p]
  show "prefix (dawg d) (dawg d2)"
    and "\<forall>s. hash_table d s \<noteq> 0 \<longrightarrow> hash_table d2 s = hash_table d s"
    by (simp_all add: grows_def)
next
  assume f: "finalise d2 edges2 = Inr d3"
  from finalise_frame [OF f] obtain root where
    r: "length root = MAX_CHARS" "dawg d3 = root @ drop MAX_CHARS (dawg d2)"
      "hash_table d3 = hash_table d2" "length (dawg d3) = length (dawg d2)" by blast
  show "length (dawg d3) = length (dawg d2)" by (rule r(4))
  show dr: "drop 256 (dawg d3) = drop 256 (dawg d2)" using r(1,2) by (simp add: MAX_CHARS_def)
  show "hash_table d3 = hash_table d2" by (rule r(3))
  from finalise_root [OF f]
  show "edges2 \<noteq> []" and tk: "take 256 (dawg d3) = padded_root (hd edges2)" by simp_all
  have "dawg d3 = take 256 (dawg d3) @ drop 256 (dawg d3)" by simp
  then show "dawg d3 = padded_root (hd edges2) @ drop 256 (dawg d2)"
    unfolding tk dr .
qed

theorem committed_edges_never_move_witness:
  "\<exists>d1 d2 edges2 d3.
     insertEdges Dawg_init [0x74c00000] = Some (Inr (257, d1))
     \<and> dawg d1 = dawg Dawg_init @ [0x74c00000]
     \<and> parse_loop \<lparr>char_signed = True, sso_capacity = 15\<rparr>
          \<lparr>count = 0, current = [], input = istream_of [0x61, 0x74, 0x0a]\<rparr> Dawg_init [[]] 0
        = Some (Inr (d2, edges2))
     \<and> prefix (dawg Dawg_init) (dawg d2)
     \<and> dawg d2 = replicate 256 0 @ [0x74c00000]
     \<and> edges2 = [[0x61000101]]
     \<and> finalise d2 edges2 = Inr d3
     \<and> drop 256 (dawg d3) = [0x74c00000]
     \<and> take 256 (dawg d3) = 0x61400101 # replicate 254 0 @ [0x00400000]"
proof -
  let ?pf = "\<lparr>char_signed = True, sso_capacity = 15\<rparr>"
  let ?wb = "\<lparr>count = 0, current = [], input = istream_of [0x61, 0x74, 0x0a]\<rparr>"
  obtain d1 where i: "insertEdges Dawg_init [0x74c00000] = Some (Inr (257, d1))"
    by (simp add: insertEdges_def probe_empty Dawg_init_def MAX_CHARS_def)
  have "\<exists>d2 d3. parse_loop ?pf ?wb Dawg_init [[]] 0 = Some (Inr (d2, [[0x61000101]]))
          \<and> dawg d2 = replicate 256 0 @ [0x74c00000]
          \<and> finalise d2 [[0x61000101]] = Inr d3"
    by (simp add: parse_loop.simps WordBuffer_next_def skip_short.simps op_extract_def
        istream_of_def isspace_def char_less_def unwind.simps extend.simps insertEdges_def
        probe.simps Dawg_init_def MAX_CHARS_def on_last_def finalise_def Let_def
        mk_Node_def setEndOfNode_def setChildOffset_def end_of_node_def end_of_word_def
        offset_mask_def letter_shift_def)
  then obtain d2 d3 where
    p: "parse_loop ?pf ?wb Dawg_init [[]] 0 = Some (Inr (d2, [[0x61000101]]))"
    and a2: "dawg d2 = replicate 256 0 @ [0x74c00000]"
    and f: "finalise d2 [[0x61000101]] = Inr d3"
    by blast
  have ne: "dawg d1 \<noteq> dawg Dawg_init"
    using i by (auto simp: insertEdges_def probe_empty Dawg_init_def MAX_CHARS_def)
  have pr: "padded_root [0x61000101] = 0x61400101 # replicate 254 0 @ [0x00400000]"
    by (simp add: padded_root_def eval_nat_numeral nth_append)
  from committed_edges_never_move
    [of Dawg_init "[0x74c00000]" 257 d1 ?pf ?wb "[[]]" 0 d2 "[[0x61000101]]" d3] i p f ne a2 pr
  show ?thesis by auto
qed

text \<open>
  C2. In a run of calls of \<open>insertEdges\<close> on a fresh builder, each with a non-empty edge
  list that has \<open>end_of_node\<close> on its last edge only, two calls return the same offset
  if and only if their edge lists have the same length and the same 32-bit values at
  every position.
\<close>

theorem intern_same_offset_iff:
  assumes "intern_all Dawg_init ess = Some (Inr (offs, d))"
    and "\<forall>es \<in> set ess. es \<noteq> [] \<and> isEndOfNode (last es)
                          \<and> (\<forall>e \<in> set (butlast es). \<not> isEndOfNode e)"
    and "i < length ess" "j < length ess"
  shows "offs ! i = offs ! j \<longleftrightarrow>
           length (ess ! i) = length (ess ! j)
           \<and> (\<forall>k < length (ess ! i). ess ! i ! k = ess ! j ! k)"
proof -
  have ne: "dawg Dawg_init \<noteq> []" by (simp add: Dawg_init_def MAX_CHARS_def)
  note r = intern_all_results [OF assms(1) ne]
  from r assms(3) have i: "located (dawg d) (offs ! i - 1) (ess ! i)"
    "insertEdges d (ess ! i) = Some (Inr (offs ! i, d))" by blast+
  from r assms(4) have j: "located (dawg d) (offs ! j - 1) (ess ! j)"
    "insertEdges d (ess ! j) = Some (Inr (offs ! j, d))" by blast+
  have "ess ! i \<in> set ess" "ess ! j \<in> set ess"
    using assms(3,4) by simp_all
  with assms(2) have gi: "one_group (ess ! i)" and gj: "one_group (ess ! j)"
    unfolding one_group_def by blast+
  have "offs ! i = offs ! j \<longleftrightarrow> ess ! i = ess ! j"
  proof
    assume "offs ! i = offs ! j"
    with i(1) j(1) gi gj show "ess ! i = ess ! j" by (auto intro: located_unique)
  next
    assume "ess ! i = ess ! j"
    with i(2) j(2) show "offs ! i = offs ! j" by simp
  qed
  then show ?thesis by (simp add: list_eq_iff_nth_eq)
qed

theorem intern_same_offset_iff_witness:
  "(\<exists>d. intern_all Dawg_init [[0x73c00000], [0x72400101], [0x73c00000]]
          = Some (Inr ([257, 258, 257], d)))
   \<and> ([257, 258, 257 :: nat] ! 0 = [257, 258, 257] ! 2 \<longleftrightarrow>
        length ([[0x73c00000], [0x72400101], [0x73c00000 :: node]] ! 0)
          = length ([[0x73c00000], [0x72400101], [0x73c00000 :: node]] ! 2)
        \<and> (\<forall>k < length ([[0x73c00000], [0x72400101], [0x73c00000 :: node]] ! 0).
              [[0x73c00000], [0x72400101], [0x73c00000 :: node]] ! 0 ! k
              = [[0x73c00000], [0x72400101], [0x73c00000]] ! 2 ! k))"
proof -
  let ?ess = "[[0x73c00000], [0x72400101], [0x73c00000 :: node]]"
  have ev: "\<exists>d. intern_all Dawg_init ?ess = Some (Inr ([257, 258, 257], d))"
    by (simp add: insertEdges_def probe.simps hash_def hash_fn_def HASH_TABLE_SIZE_def
        Dawg_init_def MAX_CHARS_def hash_modulo_increment_def nth_append)
  then obtain d where run: "intern_all Dawg_init ?ess = Some (Inr ([257, 258, 257], d))"
    by blast
  have grp: "\<forall>es \<in> set ?ess. es \<noteq> [] \<and> isEndOfNode (last es)
                          \<and> (\<forall>e \<in> set (butlast es). \<not> isEndOfNode e)"
    by (simp add: isEndOfNode_def end_of_node_def)
  from intern_same_offset_iff [OF run grp, of 0 2] ev show ?thesis
    by simp
qed

text \<open>
  C1, as the code has it. Let the tokens of the input be \<open>L\<close>, strictly ascending by
  byte, every word of at least two characters, at most as many as a string stores in
  place, and of characters that are positive as a \<open>char\<close> (no zero byte, and no byte
  from 128 on where \<open>char\<close> is signed). Then \<open>create\<close> fails with \<open>HashTableFull\<close> or writes
  a file; and when the file has at most 2,097,151 edges, \<open>dump\<close> of it ends and writes
  exactly the words of \<open>L\<close>, one per line, in order, and reports nothing.
\<close>

theorem create_dump_round_trip:
  assumes "tokens inp = L"
    and "\<forall>w \<in> set L. 2 \<le> length w \<and> length w \<le> sso_capacity pf
                       \<and> (\<forall>c \<in> set w. char_less pf 0 c)"
    and "sorted_wrt (\<lambda>a b. (a, b) \<in> lexord {(x, y). x < y}) L"
  shows "create pf inp = Some (Inl HashTableFull)
         \<or> (\<exists>file. create pf inp = Some (Inr file)
               \<and> (length file \<le> 4 * 2 ^ 21 \<longrightarrow>
                    dump_file file = Some (Inr (concat (map (\<lambda>w. w @ [0x0a]) L), []))))"
proof -
  from assms(2) have gw: "\<forall>w \<in> set L. good_word pf w" by (simp add: good_word_def)
  from assms(3) have srt: "sorted_wrt (\<lambda>a b. (a, b) \<in> byte_lex) L" by (simp add: byte_lex_def)
  from create_words [OF assms(1) gw srt]
  show ?thesis
  proof
    assume "create pf inp = Some (Inl HashTableFull)"
    then show ?thesis by simp
  next
    assume "\<exists>d. create pf inp = Some (Inr (save d))
               \<and> (length (dawg d) < 2 ^ 21 \<longrightarrow> group_sem 0 (dawg d) 0 L)"
    then obtain d where c: "create pf inp = Some (Inr (save d))"
      and g: "length (dawg d) < 2 ^ 21 \<longrightarrow> group_sem 0 (dawg d) 0 L" by blast
    have "dump_file (save d) = Some (Inr (concat (map (\<lambda>w. w @ [0x0a]) L), []))"
      if "length (save d) \<le> 4 * 2 ^ 21"
    proof -
      from that have small: "length (dawg d) < 2 ^ 21" by (simp add: length_save)
      with g have "group_sem 0 (dawg d) 0 L" by simp
      from dump_saved [OF this small] show ?thesis by (simp add: lines_of_def)
    qed
    with c show ?thesis by blast
  qed
qed

theorem create_dump_round_trip_witness:
  "\<exists>file. create \<lparr>char_signed = True, sso_capacity = 15\<rparr>
            [0x63, 0x61, 0x72, 0x0a, 0x63, 0x61, 0x72, 0x73, 0x0a, 0x6a, 0x61, 0x72, 0x73] = Some (Inr file)
     \<and> dump_file file
       = Some (Inr ([0x63, 0x61, 0x72, 0x0a, 0x63, 0x61, 0x72, 0x73, 0x0a, 0x6a, 0x61, 0x72, 0x73, 0x0a], []))"
proof -
  let ?pf = "\<lparr>char_signed = True, sso_capacity = 15\<rparr>"
  let ?inp = "[0x63, 0x61, 0x72, 0x0a, 0x63, 0x61, 0x72, 0x73, 0x0a, 0x6a, 0x61, 0x72, 0x73 :: byte]"
  let ?L = "[[0x63, 0x61, 0x72], [0x63, 0x61, 0x72, 0x73], [0x6a, 0x61, 0x72, 0x73 :: byte]]"
  have tk: "tokens ?inp = ?L"
    by (simp add: tokens.simps isspace_def)
  have gw: "\<forall>w \<in> set ?L. 2 \<le> length w \<and> length w \<le> sso_capacity ?pf
                       \<and> (\<forall>c \<in> set w. char_less ?pf 0 c)"
    by (simp add: char_less_def)
  have srt: "sorted_wrt (\<lambda>a b. (a, b) \<in> lexord {(x, y). x < y}) ?L"
    by simp
  have ev: "\<exists>file. create ?pf ?inp = Some (Inr file) \<and> length file \<le> 4 * 2 ^ 21"
    by (simp add: create_def parse_def parse_loop.simps WordBuffer_next_def skip_short.simps
        op_extract_def istream_of_def isspace_def char_less_def unwind.simps extend.simps
        insertEdges_def probe.simps Dawg_init_def MAX_CHARS_def on_last_def finalise_def
        Let_def hash_def hash_fn_def HASH_TABLE_SIZE_def length_save mk_Node_def
        setEndOfNode_def setChildOffset_def end_of_node_def end_of_word_def offset_mask_def
        letter_shift_def hash_modulo_increment_def nth_append)
  from create_dump_round_trip [OF tk gw srt] ev show ?thesis
    by auto
qed

text \<open>
  C1, as stated, fails: the two words \<open>a\<close> with one zero byte and \<open>a\<close> with two zero
  bytes are strictly ascending and have two and three characters, and \<open>create\<close> rejects
  the second as out of order.
\<close>

theorem round_trip_fails_on_NUL:
  "tokens [0x61, 0, 0x20, 0x61, 0, 0] = [[0x61, 0], [0x61, 0, 0]]
   \<and> ([0x61, 0], [0x61, 0, 0]) \<in> byte_lex
   \<and> create \<lparr>char_signed = True, sso_capacity = 15\<rparr> [0x61, 0, 0x20, 0x61, 0, 0]
       = Some (Inl OutOfOrder)"
  by (simp add: tokens.simps isspace_def byte_lex_def create_def parse_def parse_loop.simps
      WordBuffer_next_def skip_short.simps op_extract_def istream_of_def char_less_def
      unwind.simps extend.simps Dawg_init_def)

end
